theory Spec2Isabelle
  imports Main "HOL-Library.Sublist"
begin

section \<open>JavaScript strings and sets as the scanner uses them\<close>

text \<open>
  A JavaScript string is modelled as a \<^typ>\<open>string\<close>. The scanner only
  distinguishes ASCII characters (quotes, slash, dot, at-sign, word characters), so every
  other code unit behaves as an opaque non-word, non-quote character.
\<close>

definition startsWith :: "string \<Rightarrow> string \<Rightarrow> bool" where
  \<comment> \<open>\<^verbatim>\<open>s.startsWith(p)\<close>\<close>
  "startsWith s p = (take (length p) s = p)"

fun splitOn :: "char \<Rightarrow> string \<Rightarrow> string list" where
  \<comment> \<open>\<^verbatim>\<open>s.split(c)\<close> for a one-character separator: never the empty list.\<close>
  "splitOn c [] = [[]]"
| "splitOn c (x # xs) =
     (if x = c then [] # splitOn c xs
      else (case splitOn c xs of
              [] \<Rightarrow> [[x]]
            | seg # segs \<Rightarrow> (x # seg) # segs))"

fun joinWith :: "string \<Rightarrow> string list \<Rightarrow> string" where
  \<comment> \<open>\<^verbatim>\<open>parts.join(sep)\<close>\<close>
  "joinWith sep [] = []"
| "joinWith sep [p] = p"
| "joinWith sep (p # q # ps) = p @ sep @ joinWith sep (q # ps)"

text \<open>
  A JavaScript \<^verbatim>\<open>Set\<close> keeps its members in insertion order and ignores the
  insertion of a member it already has: a duplicate-free list, extended at the end.
\<close>

definition setHas :: "'a list \<Rightarrow> 'a \<Rightarrow> bool" where
  "setHas s x = (x \<in> set s)"

definition setAdd :: "'a list \<Rightarrow> 'a \<Rightarrow> 'a list" where
  "setAdd s x = (if x \<in> set s then s else s @ [x])"

section \<open>The regular expression of \<^verbatim>\<open>scanDeps\<close>\<close>

text \<open>
  \<^verbatim>\<open>/\brequire\((['"])([^'"]*)\1/g\<close>, run by \<^verbatim>\<open>re.exec\<close> in a loop.
  \<^verbatim>\<open>\w\<close> is \<^verbatim>\<open>[A-Za-z0-9_]\<close>.
\<close>

definition isWordChar :: "char \<Rightarrow> bool" where
  "isWordChar c =
     (let n = of_char c :: nat in
      (48 \<le> n \<and> n \<le> 57) \<or> (65 \<le> n \<and> n \<le> 90) \<or> (97 \<le> n \<and> n \<le> 122) \<or> n = 95)"

definition isQuote :: "char \<Rightarrow> bool" where
  "isQuote c = (c = CHR 0x27 \<or> c = CHR 0x22)"

definition matchHere :: "string \<Rightarrow> (string \<times> string) option" where
  \<comment> \<open>The pattern after \<^verbatim>\<open>\b\<close>, anchored at the head of the text: the captured
      specifier (group 2) and the text after the match. The class \<^verbatim>\<open>[^'"]*\<close> is
      greedy and what it takes holds no quote, so giving characters back never helps:
      the match succeeds exactly when the next character is the opening quote again.\<close>
  "matchHere s =
     (if startsWith s ''require('' then
        (case drop 8 s of
           [] \<Rightarrow> None
         | q # t \<Rightarrow>
             if isQuote q then
               (case dropWhile (\<lambda>c. \<not> isQuote c) t of
                  [] \<Rightarrow> None
                | q' # rest \<Rightarrow>
                    if q' = q then Some (takeWhile (\<lambda>c. \<not> isQuote c) t, rest) else None)
             else None)
      else None)"

lemma matchHere_shorter:
  "matchHere s = Some (d, rest) \<Longrightarrow> length rest < length s"
proof -
  assume m: "matchHere s = Some (d, rest)"
  then obtain q t where qt: "drop 8 s = q # t"
    by (auto simp: matchHere_def split: if_splits list.splits)
  with m obtain q' where r: "dropWhile (\<lambda>c. \<not> isQuote c) t = q' # rest"
    by (auto simp: matchHere_def split: if_splits list.splits)
  have "length (dropWhile (\<lambda>c. \<not> isQuote c) t) \<le> length t"
    by (rule length_dropWhile_le)
  with r have "length rest < length t" by simp
  moreover from qt have "length t < length (drop 8 s)" by simp
  ultimately show ?thesis by simp
qed

function execAll :: "bool \<Rightarrow> string \<Rightarrow> string list" where
  \<comment> \<open>The successive values of \<^verbatim>\<open>match[2]\<close> in the loop
      \<^verbatim>\<open>while (match = re.exec(code))\<close>. The flag says whether the character
      before the current position is a word character (\<^verbatim>\<open>\b\<close> before the
      word character \<^verbatim>\<open>r\<close> needs a non-word character or the start of the text);
      a match ends with a quote, so the search resumes after a non-word character.\<close>
  "execAll prevWord [] = []"
| "execAll prevWord (c # cs) =
     (if prevWord then execAll (isWordChar c) cs
      else (case matchHere (c # cs) of
              Some (dep, rest) \<Rightarrow> dep # execAll False rest
            | None \<Rightarrow> execAll (isWordChar c) cs))"
  by pat_completeness auto

termination execAll
proof (relation "measure (\<lambda>(prevWord, s). length s)")
  fix prevWord :: bool and c :: char and cs dep rest :: string and x :: "string \<times> string"
  assume "matchHere (c # cs) = Some x" and "(dep, rest) = x"
  then have "matchHere (c # cs) = Some (dep, rest)" by simp
  from matchHere_shorter [OF this]
  show "((False, rest), (prevWord, c # cs)) \<in> measure (\<lambda>(prevWord, s). length s)" by simp
qed auto

definition requireMatches :: "string \<Rightarrow> string list" where
  "requireMatches code = execAll False code"

section \<open>Node's POSIX path functions\<close>

text \<open>
  The process's current directory is kept as the list of its segments, so it is always
  absolute. An absolute, normalised path is written \<^verbatim>\<open>/seg1/seg2/...\<close>.
\<close>

fun normalizeSegs :: "string list \<Rightarrow> string list \<Rightarrow> string list" where
  \<comment> \<open>\<^verbatim>\<open>normalizeString\<close> of an absolute path, segment by segment: the stack holds the
      segments kept so far, innermost first.\<close>
  "normalizeSegs stack [] = rev stack"
| "normalizeSegs stack (seg # segs) =
     (if seg = [] \<or> seg = ''.'' then normalizeSegs stack segs
      else if seg = ''..'' then normalizeSegs (tl stack) segs
      else normalizeSegs (seg # stack) segs)"

fun resolveJoin :: "string list \<Rightarrow> string list \<Rightarrow> string \<Rightarrow> string" where
  \<comment> \<open>The loop of \<^verbatim>\<open>path.resolve\<close>: the arguments from the last to the first (given
      here reversed), empty ones skipped, until one is absolute; the current directory
      when none is.\<close>
  "resolveJoin pcwd [] acc = ''/'' @ joinWith ''/'' pcwd @ ''/'' @ acc"
| "resolveJoin pcwd (p # ps) acc =
     (if p = [] then resolveJoin pcwd ps acc
      else if hd p = CHR ''/'' then p @ ''/'' @ acc
      else resolveJoin pcwd ps (p @ ''/'' @ acc))"

definition resolveSegs :: "string list \<Rightarrow> string list \<Rightarrow> string list" where
  "resolveSegs pcwd paths = normalizeSegs [] (splitOn CHR ''/'' (resolveJoin pcwd (rev paths) []))"

definition pathOfSegs :: "string list \<Rightarrow> string" where
  "pathOfSegs segs = ''/'' @ joinWith ''/'' segs"

definition pathResolve :: "string list \<Rightarrow> string list \<Rightarrow> string" where
  \<comment> \<open>\<^verbatim>\<open>path.resolve(...paths)\<close> in a process whose current directory is \<open>pcwd\<close>.\<close>
  "pathResolve pcwd paths = pathOfSegs (resolveSegs pcwd paths)"

definition pathDirname :: "string \<Rightarrow> string" where
  \<comment> \<open>\<^verbatim>\<open>path.dirname(p)\<close>: scanning from the end down to index 1, trailing slashes are
      skipped, then the last component; \<open>end\<close> is the index of the slash before it.\<close>
  "pathDirname p =
     (if p = [] then ''.''
      else
        let hasRoot = (hd p = CHR ''/'');
            r = dropWhile (\<lambda>c. c \<noteq> CHR ''/'') (dropWhile (\<lambda>c. c = CHR ''/'') (rev (tl p)))
        in (case r of
              [] \<Rightarrow> if hasRoot then ''/'' else ''.''
            | _ # front \<Rightarrow>
                if hasRoot \<and> front = [] then ''//'' else hd p # rev front))"

section \<open>The file system, source units and effects\<close>

text \<open>
  A file or directory is named by the segments of its absolute, canonical path. The name
  that \<^verbatim>\<open>require.resolve\<close> returns is such a path, so a source unit on disk
  (the \<^verbatim>\<open>string\<close> case of \<open>entry\<close>) holds these segments; the other case is
  the object \<^verbatim>\<open>{ path, content }\<close> built for standard input. An invocation builds
  at most one such object, so comparing objects by their fields agrees with the
  identity comparison of \<^verbatim>\<open>Set.has\<close>.
\<close>

datatype node = FileNode string | DirNode

type_synonym fs = "(string list \<times> node) list"

datatype entry = File "string list" | Blob string string

record spawn_call =
  command :: string
  args :: "string list"
  spawnCwd :: "string option"
  spawnEnv :: "(string \<times> string) list option"
  piped :: bool
  stdinText :: "string option"

datatype effect =
    ConsoleWarn entry
  | ConsoleErrorUsage
  | FsReadFile "string list"
  | FsMkdir "string list"
  | FsWriteFile "string list" string
  | FsRm "string list"
  | Spawn spawn_call

datatype error =
    ReadError "string list"
  | ModuleNotFound string
  | EntryFileRequired
  | FlagRequiresValue char
  | InvalidArgType
  | MkdirError "string list"
  | WriteError "string list"
  | SpawnError string
  | ChildFailed int "string option"

definition fsLookup :: "fs \<Rightarrow> string list \<Rightarrow> node option" where
  \<comment> \<open>The root directory always exists.\<close>
  "fsLookup files key = (if key = [] then Some DirNode else map_of files key)"

definition readFile :: "fs \<Rightarrow> string list \<Rightarrow> string option" where
  \<comment> \<open>\<^verbatim>\<open>fs.readFile(p, 'utf8')\<close>: rejects unless \<open>p\<close> is a file.\<close>
  "readFile files key =
     (case fsLookup files key of Some (FileNode content) \<Rightarrow> Some content | _ \<Rightarrow> None)"

section \<open>\<^verbatim>\<open>scanDeps\<close>\<close>

record scan_env =
  files :: fs
  pcwd :: "string list"
  builtinModules :: "string list"
  requireResolve :: "string \<Rightarrow> string list option"

record scan_state =
  deps :: "string list"
  visited :: "entry list"
  trace :: "effect list"

definition entryPath :: "entry \<Rightarrow> string" where
  \<comment> \<open>\<^verbatim>\<open>typeof entry === 'string' ? entry : entry.path\<close>\<close>
  "entryPath e = (case e of File key \<Rightarrow> pathOfSegs key | Blob p content \<Rightarrow> p)"

definition importTarget :: "scan_env \<Rightarrow> entry \<Rightarrow> string \<Rightarrow> string" where
  \<comment> \<open>Line 38, the argument of \<^verbatim>\<open>require.resolve\<close>:
      \<^verbatim>\<open>path.resolve(path.dirname(...), dep)\<close>\<close>
  "importTarget env entry dep = pathResolve (pcwd env) [pathDirname (entryPath entry), dep]"

definition packageName :: "string \<Rightarrow> string" where
  \<comment> \<open>Lines 42 to 48: a scoped package keeps two segments, any other the first.\<close>
  "packageName dep =
     (if startsWith dep ''@'' then joinWith ''/'' (take 2 (splitOn CHR ''/'' dep))
      else hd (splitOn CHR ''/'' dep))"

definition addDep :: "scan_env \<Rightarrow> string \<Rightarrow> scan_state \<Rightarrow> scan_state" where
  \<comment> \<open>\<^verbatim>\<open>if (!builtinModules.includes(dep)) deps.add(dep)\<close>\<close>
  "addDep env name st =
     (if name \<in> set (builtinModules env) then st else st\<lparr>deps := setAdd (deps st) name\<rparr>)"

text \<open>
  A call returns the error it threw, if any, together with the state it leaves behind:
  the two sets are shared and mutated in place, and what was printed stays printed.
\<close>

function scanDeps :: "scan_env \<Rightarrow> entry \<Rightarrow> scan_state \<Rightarrow> error option \<times> scan_state"
  and scanLoop :: "scan_env \<Rightarrow> entry \<Rightarrow> string list \<Rightarrow> scan_state \<Rightarrow> error option \<times> scan_state"
where
  "scanDeps env entry st =
     (if setHas (visited st) entry then (None, st\<lparr>trace := trace st @ [ConsoleWarn entry]\<rparr>)
      else
        (case entry of
           File key \<Rightarrow>
             (case readFile (files env) key of
                None \<Rightarrow>
                  (Some (ReadError key),
                   st\<lparr>visited := setAdd (visited st) entry,
                       trace := trace st @ [FsReadFile key]\<rparr>)
              | Some code \<Rightarrow>
                  scanLoop env entry (requireMatches code)
                    (st\<lparr>visited := setAdd (visited st) entry,
                        trace := trace st @ [FsReadFile key]\<rparr>))
         | Blob p content \<Rightarrow>
             scanLoop env entry (requireMatches content)
               (st\<lparr>visited := setAdd (visited st) entry\<rparr>)))"
| "scanLoop env entry [] st = (None, st)"
| "scanLoop env entry (dep # rest) st =
     (if startsWith dep ''.'' then
        (case requireResolve env (importTarget env entry dep) of
           None \<Rightarrow> (Some (ModuleNotFound (importTarget env entry dep)), st)
         | Some subentry \<Rightarrow>
             (case scanDeps env (File subentry) st of
                (Some err, st') \<Rightarrow> (Some err, st')
              | (None, st') \<Rightarrow> scanLoop env entry rest st'))
      else scanLoop env entry rest (addDep env (packageName dep) st))"
  by pat_completeness auto

text \<open>
  Termination. The recursion is nested: the state handed to the rest of the loop is the
  one the recursive scan returns. Every scan that reads a file adds it to \<open>visited\<close>,
  nothing ever leaves \<open>visited\<close>, and only files of the (finite) file system can be
  read, so the number of files not yet visited bounds the depth.
\<close>

definition unread :: "scan_env \<Rightarrow> scan_state \<Rightarrow> nat" where
  "unread env st = card {key \<in> fst ` set (files env). File key \<notin> set (visited st)}"

definition scanRank ::
  "(scan_env \<times> entry \<times> scan_state) + (scan_env \<times> entry \<times> string list \<times> scan_state)
     \<Rightarrow> nat \<times> nat \<times> nat" where
  "scanRank c =
     (case c of
        Inl (env, entry, st) \<Rightarrow>
          (unread env st, (case entry of File key \<Rightarrow> 0 | Blob p content \<Rightarrow> 2), 0)
      | Inr (env, entry, ds, st) \<Rightarrow> (unread env st, 1, length ds))"

lemma readFile_in_files: "readFile fls key = Some code \<Longrightarrow> key \<in> fst ` set fls"
  by (auto simp: readFile_def fsLookup_def split: option.splits node.splits if_splits
      dest!: map_of_SomeD intro: rev_image_eqI)

lemma set_setAdd [simp]: "set (setAdd s x) = insert x (set s)"
  by (auto simp: setAdd_def)

lemma unread_mono:
  "set (visited st) \<subseteq> set (visited st') \<Longrightarrow> unread env st' \<le> unread env st"
  unfolding unread_def by (rule card_mono) auto

lemma unread_less:
  assumes "key \<in> fst ` set (files env)" and "File key \<notin> set (visited st)"
    and "File key \<in> set (visited st')" and "set (visited st) \<subseteq> set (visited st')"
  shows "unread env st' < unread env st"
  unfolding unread_def
proof (rule psubset_card_mono)
  show "finite {key \<in> fst ` set (files env). File key \<notin> set (visited st)}" by simp
  show "{key \<in> fst ` set (files env). File key \<notin> set (visited st')}
        \<subset> {key \<in> fst ` set (files env). File key \<notin> set (visited st)}"
    using assms by auto
qed

lemma addDep_visited [simp]: "visited (addDep env name st) = visited st"
  by (simp add: addDep_def)

lemma addDep_trace [simp]: "trace (addDep env name st) = trace st"
  by (simp add: addDep_def)

lemma visited_grows_dom:
  "scanDeps_scanLoop_dom (Inl (env, entry, st)) \<Longrightarrow>
     scanDeps env entry st = (r, st') \<Longrightarrow> set (visited st) \<subseteq> set (visited st')"
  "scanDeps_scanLoop_dom (Inr (env, entry, ds, st)) \<Longrightarrow>
     scanLoop env entry ds st = (r, st') \<Longrightarrow> set (visited st) \<subseteq> set (visited st')"
proof (induction env entry st and env entry ds st arbitrary: r st' and r st'
       rule: scanDeps_scanLoop.pinduct)
  case (1 env entry st)
  then show ?case
    by (auto simp: scanDeps.psimps split: if_splits entry.splits option.splits)
next
  case (2 env entry st)
  then show ?case by (simp add: scanLoop.psimps)
next
  case (3 env entry dep rest st)
  show ?case
  proof (cases "startsWith dep ''.''")
    case True
    show ?thesis
    proof (cases "requireResolve env (importTarget env entry dep)")
      case None
      with True 3(1,5) show ?thesis by (simp add: scanLoop.psimps)
    next
      case (Some sub)
      obtain r1 st1 where s1: "scanDeps env (File sub) st = (r1, st1)" by fastforce
      from 3(2) [OF True Some s1] have g1: "set (visited st) \<subseteq> set (visited st1)" .
      show ?thesis
      proof (cases r1)
        case None
        with True Some s1 3(1,5) have s2: "scanLoop env entry rest st1 = (r, st')"
          by (simp add: scanLoop.psimps)
        from s1 None have "(None, st1) = scanDeps env (File sub) st" by simp
        from 3(3) [OF True Some this refl s2] g1 show ?thesis by blast
      next
        case (Some err)
        with True \<open>requireResolve env _ = Some sub\<close> s1 3(1,5) have "st' = st1"
          by (simp add: scanLoop.psimps)
        with g1 show ?thesis by simp
      qed
    qed
  next
    case False
    with 3(1,5) have "scanLoop env entry rest (addDep env (packageName dep) st) = (r, st')"
      by (simp add: scanLoop.psimps)
    from 3(4) [OF False this] show ?thesis by simp
  qed
qed

lemma scan_total: "scanDeps_scanLoop_dom c"
proof -
  let ?R = "inv_image (less_than <*lex*> less_than <*lex*> less_than) scanRank"
  have "All scanDeps_scanLoop_dom"
  proof (rule "scanDeps_scanLoop.termination" [of ?R])
    show "wf ?R" by (intro wf_inv_image wf_lex_prod wf_less_than)
  next
    fix env :: scan_env and entry :: entry and st :: scan_state
      and key :: "string list" and code :: string
    assume "\<not> setHas (visited st) entry" "entry = File key"
      "readFile (files env) key = Some code"
    then have "unread env (st\<lparr>visited := setAdd (visited st) entry,
        trace := trace st @ [FsReadFile key]\<rparr>) < unread env st"
      by (intro unread_less [of key]) (auto simp: setHas_def dest: readFile_in_files)
    then show "(Inr (env, entry, requireMatches code,
        st\<lparr>visited := setAdd (visited st) entry, trace := trace st @ [FsReadFile key]\<rparr>),
        Inl (env, entry, st)) \<in> ?R"
      by (simp add: scanRank_def)
  next
    fix env :: scan_env and entry :: entry and st :: scan_state and p content :: string
    assume "\<not> setHas (visited st) entry" "entry = Blob p content"
    moreover have "unread env (st\<lparr>visited := setAdd (visited st) entry\<rparr>) \<le> unread env st"
      by (rule unread_mono) auto
    ultimately show "(Inr (env, entry, requireMatches content,
        st\<lparr>visited := setAdd (visited st) entry\<rparr>), Inl (env, entry, st)) \<in> ?R"
      by (auto simp: scanRank_def)
  next
    fix env :: scan_env and entry :: entry and dep :: string and rest :: "string list"
      and st :: scan_state and sub :: "string list"
    show "(Inl (env, File sub, st), Inr (env, entry, dep # rest, st)) \<in> ?R"
      by (simp add: scanRank_def)
  next
    fix env :: scan_env and entry :: entry and dep :: string and rest :: "string list"
      and st st1 :: scan_state and sub :: "string list" and r :: "error option"
    assume "(r, st1) = scanDeps env (File sub) st" "r = None"
      "scanDeps_scanLoop_dom (Inl (env, File sub, st))"
    then have "unread env st1 \<le> unread env st"
      by (intro unread_mono visited_grows_dom(1) [of env "File sub" st None]) simp_all
    then show "(Inr (env, entry, rest, st1), Inr (env, entry, dep # rest, st)) \<in> ?R"
      by (auto simp: scanRank_def)
  next
    fix env :: scan_env and entry :: entry and dep :: string and rest :: "string list"
      and st :: scan_state
    show "(Inr (env, entry, rest, addDep env (packageName dep) st),
        Inr (env, entry, dep # rest, st)) \<in> ?R"
      by (simp add: scanRank_def unread_def)
  qed
  then show ?thesis ..
qed

termination scanDeps
  using scan_total by blast

declare scanDeps.simps [simp del]

subsection \<open>What every scan preserves\<close>

text \<open>
  A scan changes the state only by four kinds of step: a warning, the visit of a file
  (with its read), the visit of the standard-input object, and the addition of a
  package name. A relation that holds across each step, and is reflexive and
  transitive, holds between the state a scan starts in and the one it leaves.
\<close>

lemma scan_rel:
  assumes stay: "\<And>st. R st st"
    and chain: "\<And>a b c. R a b \<Longrightarrow> R b c \<Longrightarrow> R a c"
    and warn: "\<And>st e. R st (st\<lparr>trace := trace st @ [ConsoleWarn e]\<rparr>)"
    and visitF: "\<And>st key. File key \<notin> set (visited st) \<Longrightarrow> R st (st\<lparr>visited := setAdd (visited st) (File key),
                     trace := trace st @ [FsReadFile key]\<rparr>)"
    and visitB: "\<And>st p c. Blob p c \<notin> set (visited st) \<Longrightarrow> R st (st\<lparr>visited := setAdd (visited st) (Blob p c)\<rparr>)"
    and add: "\<And>st d. \<not> startsWith d ''.'' \<Longrightarrow> R st (addDep env (packageName d) st)"
  shows "scanDeps env entry st = (r, st') \<Longrightarrow> R st st'"
    and "scanLoop env entry ds st = (r, st') \<Longrightarrow> R st st'"
  using assms
proof (induction env entry st and env entry ds st arbitrary: r st' and r st'
       rule: scanDeps_scanLoop.induct)
  case (1 env entry st)
  show ?case
  proof (cases "setHas (visited st) entry")
    case True
    with "1.prems"(1) have "st' = st\<lparr>trace := trace st @ [ConsoleWarn entry]\<rparr>"
      by (simp add: scanDeps.simps)
    then show ?thesis using "1.prems"(4) by simp
  next
    case False
    show ?thesis
    proof (cases entry)
      case (File key)
      let ?st1 = "st\<lparr>visited := setAdd (visited st) (File key), trace := trace st @ [FsReadFile key]\<rparr>"
      from False File have a: "R st ?st1" by (intro "1.prems"(5)) (simp add: setHas_def)
      show ?thesis
      proof (cases "readFile (files env) key")
        case None
        with False File "1.prems"(1) have "st' = ?st1" by (simp add: scanDeps.simps)
        with a show ?thesis by simp
      next
        case (Some code)
        with False File "1.prems"(1) have "scanLoop env entry (requireMatches code) ?st1 = (r, st')"
          by (simp add: scanDeps.simps)
        with File have "scanLoop env entry (requireMatches code)
           (st\<lparr>visited := setAdd (visited st) entry, trace := trace st @ [FsReadFile key]\<rparr>) = (r, st')"
          by simp
        from "1.IH"(1) [OF False File Some this "1.prems"(2-7)] File have "R ?st1 st'" by simp
        with a show ?thesis by (rule "1.prems"(3))
      qed
    next
      case (Blob p c)
      let ?st1 = "st\<lparr>visited := setAdd (visited st) (Blob p c)\<rparr>"
      from False Blob have a: "R st ?st1" by (intro "1.prems"(6)) (simp add: setHas_def)
      from False Blob "1.prems"(1) have "scanLoop env entry (requireMatches c)
          (st\<lparr>visited := setAdd (visited st) entry\<rparr>) = (r, st')"
        by (simp add: scanDeps.simps)
      from "1.IH"(2) [OF False Blob this "1.prems"(2-7)] Blob have "R ?st1 st'" by simp
      with a show ?thesis by (rule "1.prems"(3))
    qed
  qed
next
  case (2 env entry st)
  then show ?case by simp
next
  case (3 env entry dep rest st)
  show ?case
  proof (cases "startsWith dep ''.''")
    case True
    show ?thesis
    proof (cases "requireResolve env (importTarget env entry dep)")
      case None
      with True "3.prems"(1) have "st' = st" by simp
      then show ?thesis using "3.prems"(2) by simp
    next
      case (Some sub)
      obtain r1 st1 where s1: "scanDeps env (File sub) st = (r1, st1)" by fastforce
      from "3.IH"(1) [OF True Some s1 "3.prems"(2-7)] have g1: "R st st1" .
      show ?thesis
      proof (cases r1)
        case None
        with True Some s1 "3.prems"(1) have s2: "scanLoop env entry rest st1 = (r, st')" by simp
        from s1 None have "(None, st1) = scanDeps env (File sub) st" by simp
        from "3.IH"(2) [OF True Some this refl s2 "3.prems"(2-7)] have "R st1 st'" .
        with g1 show ?thesis by (rule "3.prems"(3))
      next
        case (Some err)
        with True \<open>requireResolve env _ = Some sub\<close> s1 "3.prems"(1) have "st' = st1" by simp
        with g1 show ?thesis by simp
      qed
    qed
  next
    case False
    with "3.prems"(1) have s: "scanLoop env entry rest (addDep env (packageName dep) st) = (r, st')"
      by simp
    from "3.IH"(3) [OF False s "3.prems"(2-7)] have "R (addDep env (packageName dep) st) st'" .
    with "3.prems"(7) [OF False, of st] show ?thesis by (rule "3.prems"(3))
  qed
qed

lemma visited_grows:
  "scanDeps env entry st = (r, st') \<Longrightarrow> set (visited st) \<subseteq> set (visited st')"
  "scanLoop env entry ds st = (r, st') \<Longrightarrow> set (visited st) \<subseteq> set (visited st')"
  by (rule scan_rel [where R = "\<lambda>a b. set (visited a) \<subseteq> set (visited b)" and env = env];
      auto)+

lemma deps_grows:
  "scanDeps env entry st = (r, st') \<Longrightarrow> set (deps st) \<subseteq> set (deps st')"
  "scanLoop env entry ds st = (r, st') \<Longrightarrow> set (deps st) \<subseteq> set (deps st')"
  by (rule scan_rel [where R = "\<lambda>a b. set (deps a) \<subseteq> set (deps b)" and env = env];
      auto simp: addDep_def)+

lemma builtins_kept_out:
  "scanDeps env entry st = (r, st') \<Longrightarrow>
     set (deps st) \<inter> set (builtinModules env) = {} \<Longrightarrow>
     set (deps st') \<inter> set (builtinModules env) = {}"
  "scanLoop env entry ds st = (r, st') \<Longrightarrow>
     set (deps st) \<inter> set (builtinModules env) = {} \<Longrightarrow>
     set (deps st') \<inter> set (builtinModules env) = {}"
  by (rule scan_rel [where R = "\<lambda>a b. set (deps a) \<inter> set (builtinModules env) = {} \<longrightarrow>
        set (deps b) \<inter> set (builtinModules env) = {}" and env = env, rule_format];
      auto simp: addDep_def)+

definition addAll :: "scan_env \<Rightarrow> string list \<Rightarrow> scan_state \<Rightarrow> scan_state" where
  "addAll env ds st = foldl (\<lambda>s d. addDep env (packageName d) s) st ds"

lemma scanLoop_append:
  "scanLoop env e (xs @ ys) st =
     (case scanLoop env e xs st of
        (Some err, st1) \<Rightarrow> (Some err, st1)
      | (None, st1) \<Rightarrow> scanLoop env e ys st1)"
proof (induction xs arbitrary: st)
  case Nil
  show ?case by simp
next
  case (Cons d xs)
  show ?case
    by (simp add: Cons.IH split: option.splits prod.splits)
qed

lemma scanLoop_external:
  "list_all (\<lambda>d. \<not> startsWith d ''.'') ds \<Longrightarrow> scanLoop env e ds st = (None, addAll env ds st)"
  by (induction ds arbitrary: st) (simp_all add: addAll_def)

lemma addAll_visited [simp]: "visited (addAll env ds st) = visited st"
  unfolding addAll_def by (induction ds arbitrary: st) simp_all

lemma addAll_trace [simp]: "trace (addAll env ds st) = trace st"
  unfolding addAll_def by (induction ds arbitrary: st) simp_all

section \<open>The command line, child processes and \<^verbatim>\<open>main\<close>\<close>

record cli_options =
  cwd :: string
  silent :: bool
  clean :: bool
  helpOpt :: bool

text \<open>
  \<^verbatim>\<open>parseArgs\<close>. The inner loop runs over the letters after the dash; \<^verbatim>\<open>-C\<close> must
  be the last letter of its argument and takes the next argument as its value
  (\<^verbatim>\<open>path.resolve(undefined)\<close> throws when there is none).
\<close>

fun parseFlags ::
  "string list \<Rightarrow> cli_options \<Rightarrow> string \<Rightarrow> string list
     \<Rightarrow> error + (cli_options \<times> string list)" where
  "parseFlags pwd options [] following = Inr (options, following)"
| "parseFlags pwd options (c # cs) following =
     (if c = CHR ''s'' then parseFlags pwd (options\<lparr>silent := True\<rparr>) cs following
      else if c = CHR ''c'' then parseFlags pwd (options\<lparr>clean := True\<rparr>) cs following
      else if c = CHR ''h'' then parseFlags pwd (options\<lparr>helpOpt := True\<rparr>) cs following
      else if c = CHR ''C'' then
        (if cs \<noteq> [] then Inl (FlagRequiresValue c)
         else (case following of
                 [] \<Rightarrow> Inl InvalidArgType
               | v # following' \<Rightarrow>
                   parseFlags pwd (options\<lparr>cwd := pathResolve pwd [v]\<rparr>) cs following'))
      else parseFlags pwd options cs following)"

definition isFlagArg :: "string \<Rightarrow> bool" where
  \<comment> \<open>\<^verbatim>\<open>/^-\w/.test(arg)\<close>\<close>
  "isFlagArg arg =
     (case arg of c # d # cs \<Rightarrow> c = CHR ''-'' \<and> isWordChar d | _ \<Rightarrow> False)"

lemma parseFlags_length:
  "parseFlags pwd options cs following = Inr (options', following')
     \<Longrightarrow> length following' \<le> length following"
  by (induction pwd options cs following rule: parseFlags.induct)
     (auto split: if_splits list.splits)

function parseLoop ::
  "string list \<Rightarrow> cli_options \<Rightarrow> string list \<Rightarrow> error + (cli_options \<times> string list)" where
  "parseLoop pwd options [] = Inr (options, [])"
| "parseLoop pwd options (arg # following) =
     (if \<not> isFlagArg arg then Inr (options, arg # following)
      else (case parseFlags pwd options (tl arg) following of
              Inl err \<Rightarrow> Inl err
            | Inr (options', following') \<Rightarrow> parseLoop pwd options' following'))"
  by pat_completeness auto

termination parseLoop
proof (relation "measure (\<lambda>(pwd, options, as). length as)")
  fix pwd :: "string list" and options options' :: cli_options and arg :: string
    and following following' :: "string list" and x :: "cli_options \<times> string list"
  assume "parseFlags pwd options (tl arg) following = Inr x" "(options', following') = x"
  then have "parseFlags pwd options (tl arg) following = Inr (options', following')" by simp
  from parseFlags_length [OF this]
  show "((pwd, options', following'), (pwd, options, arg # following))
      \<in> measure (\<lambda>(pwd, options, as). length as)"
    by simp
qed simp

definition parseArgs :: "string list \<Rightarrow> string list \<Rightarrow> error + (cli_options \<times> string list)" where
  "parseArgs pwd as =
     parseLoop pwd \<lparr>cwd = ''.'', silent = False, clean = False, helpOpt = False\<rparr> as"

subsection \<open>File-system calls\<close>

text \<open>
  The operating system resolves the path it is given against the process's current
  directory; \<open>osKey\<close> is the canonical name of the file meant.
\<close>

definition osKey :: "string list \<Rightarrow> string \<Rightarrow> string list" where
  "osKey pwd p = resolveSegs pwd [p]"

definition exists :: "fs \<Rightarrow> string list \<Rightarrow> string \<Rightarrow> bool" where
  \<comment> \<open>\<^verbatim>\<open>fs.stat\<close> succeeds\<close>
  "exists fls pwd p = (fsLookup fls (osKey pwd p) \<noteq> None)"

definition isFile :: "fs \<Rightarrow> string list \<Rightarrow> bool" where
  "isFile fls key = (case fsLookup fls key of Some (FileNode content) \<Rightarrow> True | _ \<Rightarrow> False)"

definition fsPut :: "fs \<Rightarrow> string list \<Rightarrow> node \<Rightarrow> fs" where
  "fsPut fls key n = (key, n) # filter (\<lambda>(k, m). k \<noteq> key) fls"

definition mkdirRecursive :: "fs \<Rightarrow> string list \<Rightarrow> fs option" where
  \<comment> \<open>\<^verbatim>\<open>fs.mkdir(p, { recursive: true })\<close>: creates the missing ancestors too, and fails
      when a file stands where a directory is needed.\<close>
  "mkdirRecursive fls key =
     (if list_ex (isFile fls) (prefixes key) then None
      else Some (foldl (\<lambda>acc k. if fsLookup acc k = None then fsPut acc k DirNode else acc)
                   fls (prefixes key)))"

definition writeFile :: "fs \<Rightarrow> string list \<Rightarrow> string \<Rightarrow> fs option" where
  \<comment> \<open>\<^verbatim>\<open>fs.writeFile(p, data, 'utf8')\<close>: needs the containing directory, and \<open>p\<close> not
      to be a directory.\<close>
  "writeFile fls key content =
     (if key = [] \<or> fsLookup fls (butlast key) \<noteq> Some DirNode \<or> fsLookup fls key = Some DirNode
      then None
      else Some (fsPut fls key (FileNode content)))"

definition rmRecursive :: "fs \<Rightarrow> string list \<Rightarrow> fs" where
  \<comment> \<open>\<^verbatim>\<open>fs.rm(p, { force: true, recursive: true })\<close>: the path and everything below it;
      nothing, and no error, when the path does not exist.\<close>
  "rmRecursive fls key = filter (\<lambda>(k, n). \<not> prefix key k) fls"

subsection \<open>Child processes\<close>

text \<open>
  What a child process does is outside the program: it is a parameter, a function from
  the call and the file system it starts in to the event that settles the promise
  (an \<^verbatim>\<open>error\<close> event, or \<^verbatim>\<open>close\<close> with an exit code or a signal, one of
  them \<^verbatim>\<open>null\<close>) and the file system it leaves.
\<close>

datatype child_exit = ChildError string | ChildClose "int option" "string option"

record process_env =
  argv :: "string list"
  stdinChunks :: "string list"
  processEnv :: "(string \<times> string) list"
  spawnChild :: "spawn_call \<Rightarrow> fs \<Rightarrow> child_exit \<times> fs"

record spawn_options =
  optStdin :: "string option"
  optSilent :: bool
  optCwd :: "string option"
  optEnv :: "(string \<times> string) list option"

type_synonym world = "fs \<times> effect list"

definition truthy :: "string option \<Rightarrow> string option" where
  \<comment> \<open>\<^verbatim>\<open>if (stdin)\<close>: neither \<^verbatim>\<open>null\<close>, \<^verbatim>\<open>undefined\<close> nor the empty string\<close>
  "truthy s = (case s of None \<Rightarrow> None | Some t \<Rightarrow> if t = [] then None else Some t)"

definition settle :: "child_exit \<Rightarrow> error option" where
  \<comment> \<open>Lines 64 to 70: \<^verbatim>\<open>error\<close> rejects; \<^verbatim>\<open>close\<close> rejects when \<^verbatim>\<open>code\<close> is truthy
      (neither \<^verbatim>\<open>null\<close> nor 0) and resolves otherwise.\<close>
  "settle exit =
     (case exit of
        ChildError msg \<Rightarrow> Some (SpawnError msg)
      | ChildClose code signal \<Rightarrow>
          (case code of
             None \<Rightarrow> None
           | Some n \<Rightarrow> if n \<noteq> 0 then Some (ChildFailed n signal) else None))"

definition spawnCall :: "string \<Rightarrow> string list \<Rightarrow> spawn_options \<Rightarrow> spawn_call" where
  \<comment> \<open>What \<^verbatim>\<open>spawn\<close> is called with, whether the output is piped through, and
      whether the input stream is fed.\<close>
  "spawnCall cmd as opts =
     \<lparr>command = cmd, args = as, spawnCwd = optCwd opts, spawnEnv = optEnv opts,
      piped = (\<not> optSilent opts), stdinText = truthy (optStdin opts)\<rparr>"

definition spawnAsync ::
  "process_env \<Rightarrow> string \<Rightarrow> string list \<Rightarrow> spawn_options \<Rightarrow> world \<Rightarrow> error option \<times> world" where
  "spawnAsync pe cmd as opts w =
     (let call = spawnCall cmd as opts;
          (exit, fls') = spawnChild pe call (fst w)
      in (settle exit, (fls', snd w @ [Spawn call])))"

definition installArgs :: "string list \<Rightarrow> string list" where
  \<comment> \<open>\<^verbatim>\<open>['install', '--no-save', '--no-package-lock', ...deps]\<close>\<close>
  "installArgs ds = [''install'', ''--no-save'', ''--no-package-lock''] @ ds"

definition spawnOptions :: "cli_options \<Rightarrow> spawn_options" where
  \<comment> \<open>Lines 76 to 79: \<^verbatim>\<open>{ silent: options.silent }\<close>, with \<^verbatim>\<open>cwd\<close> when it is set.\<close>
  "spawnOptions options =
     \<lparr>optStdin = None, optSilent = silent options,
      optCwd = (if cwd options \<noteq> [] then Some (cwd options) else None), optEnv = None\<rparr>"

definition installDeps ::
  "process_env \<Rightarrow> string list \<Rightarrow> cli_options \<Rightarrow> world \<Rightarrow> error option \<times> world" where
  "installDeps pe ds options w = spawnAsync pe ''npm'' (installArgs ds) (spawnOptions options) w"

subsection \<open>\<^verbatim>\<open>main\<close>\<close>

definition readStream :: "string list \<Rightarrow> string" where
  \<comment> \<open>\<^verbatim>\<open>chunks.join('')\<close> once the stream has ended\<close>
  "readStream chunks = concat chunks"

fun envPut :: "string \<Rightarrow> string \<Rightarrow> (string \<times> string) list \<Rightarrow> (string \<times> string) list" where
  \<comment> \<open>\<^verbatim>\<open>{ ...process.env, NODE_PATH: modulesPath }\<close>\<close>
  "envPut k v [] = [(k, v)]"
| "envPut k v ((k', v') # kvs) = (if k' = k then (k, v) # kvs else (k', v') # envPut k v kvs)"

definition resolveEntry :: "scan_env \<Rightarrow> process_env \<Rightarrow> string \<Rightarrow> error + entry" where
  \<comment> \<open>Lines 149 to 157.\<close>
  "resolveEntry env pe entryFile =
     (if entryFile = ''-'' then Inr (Blob entryFile (readStream (stdinChunks pe)))
      else (case requireResolve env (pathResolve (pcwd env) [entryFile]) of
              None \<Rightarrow> Inl (ModuleNotFound (pathResolve (pcwd env) [entryFile]))
            | Some key \<Rightarrow> Inr (File key)))"

definition pkgFile :: "string list \<Rightarrow> cli_options \<Rightarrow> string" where
  "pkgFile pwd options = pathResolve pwd [cwd options, ''package.json'']"

definition modulesPath :: "string list \<Rightarrow> cli_options \<Rightarrow> string" where
  "modulesPath pwd options = pathResolve pwd [cwd options, ''node_modules'']"

definition ensureCwd :: "string list \<Rightarrow> cli_options \<Rightarrow> world \<Rightarrow> error option \<times> bool \<times> world" where
  \<comment> \<open>Lines 162 to 165; the flag is \<^verbatim>\<open>cleanCwd\<close>.\<close>
  "ensureCwd pwd options w =
     (if cwd options \<noteq> [] \<and> \<not> exists (fst w) pwd (cwd options) then
        (let key = osKey pwd (cwd options); w' = (fst w, snd w @ [FsMkdir key]) in
         case mkdirRecursive (fst w) key of
           None \<Rightarrow> (Some (MkdirError key), False, w')
         | Some fls' \<Rightarrow> (None, True, (fls', snd w')))
      else (None, False, w))"

definition ensurePkg :: "string list \<Rightarrow> cli_options \<Rightarrow> world \<Rightarrow> error option \<times> bool \<times> world" where
  \<comment> \<open>Lines 166 to 170; the flag is \<^verbatim>\<open>cleanPkg\<close>.\<close>
  "ensurePkg pwd options w =
     (if \<not> exists (fst w) pwd (pkgFile pwd options) then
        (let key = osKey pwd (pkgFile pwd options);
             w' = (fst w, snd w @ [FsWriteFile key ''{}'']) in
         case writeFile (fst w) key ''{}'' of
           None \<Rightarrow> (Some (WriteError key), False, w')
         | Some fls' \<Rightarrow> (None, True, (fls', snd w')))
      else (None, False, w))"

definition fsRm :: "string list \<Rightarrow> string \<Rightarrow> world \<Rightarrow> world" where
  "fsRm pwd p w = (rmRecursive (fst w) (osKey pwd p), snd w @ [FsRm (osKey pwd p)])"

definition cleanArtifacts ::
  "string list \<Rightarrow> cli_options \<Rightarrow> bool \<Rightarrow> bool \<Rightarrow> bool \<Rightarrow> world \<Rightarrow> world" where
  \<comment> \<open>Lines 184 to 187.\<close>
  "cleanArtifacts pwd options cleanCwd cleanPkg cleanModules w =
     (let w1 = (if cleanModules then fsRm pwd (modulesPath pwd options) w else w);
          w2 = (if cleanPkg then fsRm pwd (pkgFile pwd options) w1 else w1)
      in if cleanCwd then fsRm pwd (cwd options) w2 else w2)"

definition entryStdin :: "entry \<Rightarrow> string option" where
  \<comment> \<open>\<^verbatim>\<open>typeof entry === 'string' ? null : entry.content\<close>\<close>
  "entryStdin e = (case e of File key \<Rightarrow> None | Blob p content \<Rightarrow> Some content)"

definition runOptions ::
  "string list \<Rightarrow> process_env \<Rightarrow> cli_options \<Rightarrow> entry \<Rightarrow> spawn_options" where
  \<comment> \<open>Lines 177 to 182: the environment with \<^verbatim>\<open>NODE_PATH\<close>, and the standard input.\<close>
  "runOptions pwd pe options entry =
     \<lparr>optStdin = entryStdin entry, optSilent = False, optCwd = None,
      optEnv = Some (envPut ''NODE_PATH'' (modulesPath pwd options) (processEnv pe))\<rparr>"

definition runScript ::
  "string list \<Rightarrow> process_env \<Rightarrow> cli_options \<Rightarrow> string list \<Rightarrow> entry \<Rightarrow> string list \<Rightarrow> world
     \<Rightarrow> error option \<times> world" where
  \<comment> \<open>Lines 159 to 188: what \<^verbatim>\<open>main\<close> does once the scan has returned.\<close>
  "runScript pwd pe options rest entry ds w =
     (case ensureCwd pwd options w of
        (Some err, cleanCwd, w1) \<Rightarrow> (Some err, w1)
      | (None, cleanCwd, w1) \<Rightarrow>
     (case ensurePkg pwd options w1 of
        (Some err, cleanPkg, w2) \<Rightarrow> (Some err, w2)
      | (None, cleanPkg, w2) \<Rightarrow>
     (let cleanModules = (\<not> exists (fst w2) pwd (modulesPath pwd options)) in
      case installDeps pe ds options w2 of
        (Some err, w3) \<Rightarrow> (Some err, w3)
      | (None, w3) \<Rightarrow>
     (case spawnAsync pe ''node'' rest (runOptions pwd pe options entry) w3 of
        (Some err, w4) \<Rightarrow> (Some err, w4)
      | (None, w4) \<Rightarrow>
          if clean options
          then (None, cleanArtifacts pwd options cleanCwd cleanPkg cleanModules w4)
          else (None, w4)))))"

definition main :: "scan_env \<Rightarrow> process_env \<Rightarrow> error option \<times> world" where
  \<comment> \<open>The file system the invocation starts in is \<open>files env\<close>; the result is the error
      the promise rejects with, if any, the file system left and what was done.\<close>
  "main env pe =
     (case parseArgs (pcwd env) (argv pe) of
        Inl err \<Rightarrow> (Some err, (files env, []))
      | Inr (options, rest) \<Rightarrow>
          if helpOpt options then (None, (files env, [ConsoleErrorUsage]))
          else
            (case rest of
               [] \<Rightarrow> (Some EntryFileRequired, (files env, [ConsoleErrorUsage]))
             | entryFile # others \<Rightarrow>
                 if entryFile = [] then (Some EntryFileRequired, (files env, [ConsoleErrorUsage]))
                 else
                   (case resolveEntry env pe entryFile of
                      Inl err \<Rightarrow> (Some err, (files env, []))
                    | Inr entry \<Rightarrow>
                        (case scanDeps env entry \<lparr>deps = [], visited = [], trace = []\<rparr> of
                           (Some err, st) \<Rightarrow> (Some err, (files env, trace st))
                         | (None, st) \<Rightarrow>
                             runScript (pcwd env) pe options rest entry (deps st)
                               (files env, trace st)))))"

definition exitCode :: "scan_env \<Rightarrow> process_env \<Rightarrow> nat" where
  \<comment> \<open>\<^verbatim>\<open>main().catch(err => { console.error(err); process.exitCode = 1; })\<close>\<close>
  "exitCode env pe = (case fst (main env pe) of None \<Rightarrow> 0 | Some err \<Rightarrow> 1)"

section \<open>Example file systems\<close>

definition loadAsFile :: "fs \<Rightarrow> string list \<Rightarrow> string \<Rightarrow> string list option" where
  \<comment> \<open>The first stage of Node's lookup (the exact name, then with the extensions
      \<^verbatim>\<open>.js\<close>, \<^verbatim>\<open>.json\<close>, \<^verbatim>\<open>.node\<close>), enough for the examples below. The theorems
      hold for every resolver.\<close>
  "loadAsFile fls pwd p =
     (let key = resolveSegs pwd [p] in
      if key = [] then None
      else find (isFile fls)
             (map (\<lambda>ext. butlast key @ [last key @ ext]) [[], ''.js'', ''.json'', ''.node'']))"

definition requireText :: "char \<Rightarrow> string \<Rightarrow> string" where
  \<comment> \<open>The source text of an import with the given quote character.\<close>
  "requireText q spec = ''require('' @ [q] @ spec @ [q] @ '')''"

definition cycleFiles :: fs where
  "cycleFiles =
     [([''app''], DirNode),
      ([''app'', ''a.js''], FileNode (''const b = '' @ requireText (CHR 0x27) ''./b'' @ '';'')),
      ([''app'', ''b.js''],
         FileNode (''module.exports = '' @ requireText (CHR 0x22) ''./a.js'' @ '';''))]"

definition cycleEnv :: scan_env where
  "cycleEnv = \<lparr>files = cycleFiles, pcwd = [''app''], builtinModules = [''fs'', ''path''],
     requireResolve = loadAsFile cycleFiles [''app'']\<rparr>"

section \<open>The scan: termination and cycles\<close>

text \<open>
  Claim C1. The scan terminates on every input: every call of \<open>scanDeps\<close> lies in the
  well-founded part of its recursion (the file system is a finite list of files, so this
  covers every finite local-import graph, cyclic or not). On a cycle of two files, where
  \<open>a\<close> requires \<open>b\<close> and \<open>b\<close> requires \<open>a\<close> through one relative import each (next
  to any number of imports of packages), the scan started at \<open>a\<close> returns without an
  error, has visited exactly \<open>a\<close> and \<open>b\<close>, has read each once, and has printed exactly
  one warning, for the second arrival at \<open>a\<close>, which returns at once.
\<close>

theorem scan_terminates_cycle_warns_once:
  assumes ab: "a \<noteq> b"
    and ra: "readFile (files env) a = Some codeA"
    and rb: "readFile (files env) b = Some codeB"
    and ma: "requireMatches codeA = preA @ [toB] @ postA"
    and mb: "requireMatches codeB = preB @ [toA] @ postB"
    and ext: "list_all (\<lambda>d. \<not> startsWith d ''.'') (preA @ postA @ preB @ postB)"
    and relB: "startsWith toB ''.''" and relA: "startsWith toA ''.''"
    and resB: "requireResolve env (importTarget env (File a) toB) = Some b"
    and resA: "requireResolve env (importTarget env (File b) toA) = Some a"
  shows "scanDeps_scanLoop_dom (Inl (env', entry, st)) \<and>
    (\<exists>st'. scanDeps env (File a) \<lparr>deps = [], visited = [], trace = []\<rparr> = (None, st') \<and>
       visited st' = [File a, File b] \<and>
       trace st' = [FsReadFile a, FsReadFile b, ConsoleWarn (File a)])"
proof
  show "scanDeps_scanLoop_dom (Inl (env', entry, st))" by (rule scan_total)
next
  from ext have e1: "list_all (\<lambda>d. \<not> startsWith d ''.'') preA"
    and e2: "list_all (\<lambda>d. \<not> startsWith d ''.'') postA"
    and e3: "list_all (\<lambda>d. \<not> startsWith d ''.'') preB"
    and e4: "list_all (\<lambda>d. \<not> startsWith d ''.'') postB"
    by simp_all
  define st1 where "st1 = \<lparr>deps = [], visited = [File a], trace = [FsReadFile a]\<rparr>"
  define st2 where "st2 = addAll env preA st1"
  define st3 where "st3 = st2\<lparr>visited := [File a, File b], trace := [FsReadFile a, FsReadFile b]\<rparr>"
  define st4 where "st4 = addAll env preB st3"
  define st5 where "st5 = st4\<lparr>trace := [FsReadFile a, FsReadFile b, ConsoleWarn (File a)]\<rparr>"
  define st6 where "st6 = addAll env postB st5"
  define st7 where "st7 = addAll env postA st6"
  have v2: "visited st2 = [File a]" and t2: "trace st2 = [FsReadFile a]"
    by (simp_all add: st2_def st1_def)
  have v4: "visited st4 = [File a, File b]" and t4: "trace st4 = [FsReadFile a, FsReadFile b]"
    by (simp_all add: st4_def st3_def)
  have inner: "scanDeps env (File a) st4 = (None, st5)"
    by (simp add: scanDeps.simps setHas_def v4 t4 st5_def)
  have loopB: "scanLoop env (File b) (preB @ [toA] @ postB) st3 = (None, st6)"
    using e3 e4 relA resA inner
    by (simp add: scanLoop_append scanLoop_external st4_def st6_def)
  have scanB: "scanDeps env (File b) st2 = (None, st6)"
    using ab rb mb loopB
    by (simp add: scanDeps.simps setHas_def v2 t2 setAdd_def st3_def)
  have loopA: "scanLoop env (File a) (preA @ [toB] @ postA) st1 = (None, st7)"
    using e1 e2 relB resB scanB
    by (simp add: scanLoop_append scanLoop_external st2_def st7_def)
  have scanA: "scanDeps env (File a) \<lparr>deps = [], visited = [], trace = []\<rparr> = (None, st7)"
    using ra ma loopA
    by (simp add: scanDeps.simps setHas_def setAdd_def st1_def)
  have "visited st7 = [File a, File b]"
    by (simp add: st7_def st6_def st5_def v4)
  moreover have "trace st7 = [FsReadFile a, FsReadFile b, ConsoleWarn (File a)]"
    by (simp add: st7_def st6_def st5_def)
  ultimately show "\<exists>st'. scanDeps env (File a) \<lparr>deps = [], visited = [], trace = []\<rparr> = (None, st') \<and>
       visited st' = [File a, File b] \<and>
       trace st' = [FsReadFile a, FsReadFile b, ConsoleWarn (File a)]"
    using scanA by blast
qed

theorem scan_terminates_cycle_warns_once_witness:
  "scanDeps_scanLoop_dom (Inl (cycleEnv, File [''app'', ''a.js''],
       \<lparr>deps = [], visited = [], trace = []\<rparr>)) \<and>
   (\<exists>st'. scanDeps cycleEnv (File [''app'', ''a.js'']) \<lparr>deps = [], visited = [], trace = []\<rparr>
           = (None, st') \<and>
      visited st' = [File [''app'', ''a.js''], File [''app'', ''b.js'']] \<and>
      trace st' = [FsReadFile [''app'', ''a.js''], FsReadFile [''app'', ''b.js''],
                   ConsoleWarn (File [''app'', ''a.js''])])"
proof -
  have ab: "[''app'', ''a.js''] \<noteq> [''app'', ''b.js'']" by simp
  have ra: "readFile (files cycleEnv) [''app'', ''a.js'']
      = Some (''const b = '' @ requireText (CHR 0x27) ''./b'' @ '';'')"
    by code_simp
  have rb: "readFile (files cycleEnv) [''app'', ''b.js'']
      = Some (''module.exports = '' @ requireText (CHR 0x22) ''./a.js'' @ '';'')"
    by code_simp
  have ma: "requireMatches (''const b = '' @ requireText (CHR 0x27) ''./b'' @ '';'')
      = [] @ [''./b''] @ []"
    by code_simp
  have mb: "requireMatches (''module.exports = '' @ requireText (CHR 0x22) ''./a.js'' @ '';'')
      = [] @ [''./a.js''] @ []"
    by code_simp
  have ext: "list_all (\<lambda>d. \<not> startsWith d ''.'') ([] @ [] @ [] @ [])" by simp
  have relB: "startsWith ''./b'' ''.''" and relA: "startsWith ''./a.js'' ''.''"
    by (simp_all add: startsWith_def)
  have resB: "requireResolve cycleEnv (importTarget cycleEnv (File [''app'', ''a.js'']) ''./b'')
      = Some [''app'', ''b.js'']"
    by code_simp
  have resA: "requireResolve cycleEnv (importTarget cycleEnv (File [''app'', ''b.js'']) ''./a.js'')
      = Some [''app'', ''a.js'']"
    by code_simp
  from scan_terminates_cycle_warns_once [OF ab ra rb ma mb ext relB relA resB resA]
  show ?thesis .
qed

section \<open>Package names\<close>

definition slashes :: "string \<Rightarrow> nat" where
  "slashes s = length (filter (\<lambda>c. c = CHR ''/'') s)"

lemma splitOn_nonempty [simp]: "splitOn c s \<noteq> []"
  by (induction s) (auto split: list.splits)

lemma splitOn_no_sep: "c \<notin> set a \<Longrightarrow> splitOn c a = [a]"
  by (induction a) auto

lemma splitOn_append: "splitOn c (xs @ c # ys) = (splitOn c xs) @ (splitOn c ys)"
proof (induction xs)
  case Nil
  show ?case by simp
next
  case (Cons x xs)
  obtain seg segs where s: "splitOn c xs = seg # segs"
    by (cases "splitOn c xs") auto
  from Cons s show ?case by simp
qed

lemma splitOn_segments: "seg \<in> set (splitOn c s) \<Longrightarrow> c \<notin> set seg"
proof (induction s arbitrary: seg)
  case Nil
  then show ?case by simp
next
  case (Cons x xs)
  obtain h t where s: "splitOn c xs = h # t"
    by (cases "splitOn c xs") auto
  from Cons s show ?case by (auto split: if_splits)
qed

lemma join_splitOn: "joinWith [c] (splitOn c s) = s"
proof (induction s)
  case Nil
  show ?case by simp
next
  case (Cons x xs)
  obtain h t where s: "splitOn c xs = h # t"
    by (cases "splitOn c xs") auto
  from Cons s show ?case by (cases t) auto
qed

lemma length_splitOn: "length (splitOn c s) = Suc (length (filter (\<lambda>x. x = c) s))"
proof (induction s)
  case Nil
  show ?case by simp
next
  case (Cons x xs)
  obtain h t where s: "splitOn c xs = h # t"
    by (cases "splitOn c xs") auto
  from Cons s show ?case by auto
qed

lemma filter_joinWith:
  "\<forall>seg \<in> set segs. c \<notin> set seg \<Longrightarrow>
     length (filter (\<lambda>x. x = c) (joinWith [c] segs)) = length segs - 1"
proof (induction segs)
  case Nil
  show ?case by simp
next
  case (Cons p ps)
  then show ?case by (cases ps) (auto simp: filter_empty_conv)
qed

lemma joinWith_take_prefix:
  "segs = take n segs \<or> (\<exists>rest. joinWith sep segs = joinWith sep (take n segs) @ sep @ rest) \<or> n = 0"
proof (induction segs arbitrary: n rule: joinWith.induct)
  case (1 sep)
  show ?case by simp
next
  case (2 sep p)
  show ?case by (cases n) auto
next
  case (3 sep p q ps)
  show ?case
  proof (cases n)
    case 0
    then show ?thesis by simp
  next
    case (Suc m)
    show ?thesis
    proof (cases m)
      case 0
      with Suc show ?thesis by auto
    next
      case (Suc k)
      from 3 [of m] Suc \<open>n = Suc m\<close> show ?thesis by auto
    qed
  qed
qed

lemma hd_splitOn_prefix:
  "s = hd (splitOn c s) \<or> (\<exists>rest. s = hd (splitOn c s) @ c # rest)"
proof (induction s)
  case Nil
  show ?case by simp
next
  case (Cons x xs)
  obtain h t where s: "splitOn c xs = h # t"
    by (cases "splitOn c xs") auto
  from Cons s show ?case by auto
qed

lemma packageName_prefix:
  "dep = packageName dep \<or> (\<exists>rest. dep = packageName dep @ ''/'' @ rest)"
proof (cases "startsWith dep ''@''")
  case True
  have "joinWith ''/'' (splitOn CHR ''/'' dep) = dep" by (rule join_splitOn)
  with joinWith_take_prefix [of "splitOn CHR ''/'' dep" 2 "''/''"] True
  show ?thesis by (auto simp: packageName_def)
next
  case False
  with hd_splitOn_prefix [of dep "CHR ''/''"] show ?thesis by (auto simp: packageName_def)
qed

lemma slashes_packageName:
  "slashes (packageName dep) = (if startsWith dep ''@'' then min 1 (slashes dep) else 0)"
proof (cases "startsWith dep ''@''")
  case True
  have "\<forall>seg \<in> set (take 2 (splitOn CHR ''/'' dep)). CHR ''/'' \<notin> set seg"
    by (auto dest: in_set_takeD splitOn_segments)
  from filter_joinWith [OF this] True show ?thesis
    by (auto simp: packageName_def slashes_def length_splitOn min_def)
next
  case False
  have "hd (splitOn CHR ''/'' dep) \<in> set (splitOn CHR ''/'' dep)" by simp
  then have "CHR ''/'' \<notin> set (hd (splitOn CHR ''/'' dep))" by (rule splitOn_segments)
  with False show ?thesis by (auto simp: packageName_def slashes_def filter_empty_conv)
qed

lemma startsWith_packageName:
  "startsWith (packageName dep) ''@'' = startsWith dep ''@''"
proof (cases dep)
  case Nil
  then show ?thesis by (simp add: packageName_def startsWith_def)
next
  case (Cons x xs)
  show ?thesis
  proof (cases "x = CHR ''/''")
    case True
    with Cons show ?thesis by (simp add: packageName_def startsWith_def)
  next
    case False
    obtain h t where s: "splitOn CHR ''/'' xs = h # t"
      by (cases "splitOn CHR ''/'' xs") auto
    with Cons False show ?thesis
      by (cases t) (auto simp: packageName_def startsWith_def)
  qed
qed

lemma packageName_scoped:
  "CHR ''/'' \<notin> set scope \<Longrightarrow> CHR ''/'' \<notin> set name \<Longrightarrow>
     packageName (''@'' @ scope @ ''/'' @ name @ ''/'' @ deep) = ''@'' @ scope @ ''/'' @ name"
proof -
  assume a: "CHR ''/'' \<notin> set scope" "CHR ''/'' \<notin> set name"
  have "splitOn CHR ''/'' ((CHR ''@'' # scope) @ CHR ''/'' # (name @ CHR ''/'' # deep))
      = splitOn CHR ''/'' (CHR ''@'' # scope) @ splitOn CHR ''/'' name @ splitOn CHR ''/'' deep"
    by (simp only: splitOn_append)
  also have "\<dots> = [CHR ''@'' # scope] @ [name] @ splitOn CHR ''/'' deep"
    using a by (simp add: splitOn_no_sep)
  finally show ?thesis by (simp add: packageName_def startsWith_def)
qed

lemma packageName_bare:
  "CHR ''/'' \<notin> set name \<Longrightarrow> \<not> startsWith name ''@'' \<Longrightarrow> name \<noteq> [] \<Longrightarrow>
     packageName (name @ ''/'' @ sub) = name"
proof -
  assume a: "CHR ''/'' \<notin> set name" "\<not> startsWith name ''@''" "name \<noteq> []"
  have "splitOn CHR ''/'' (name @ CHR ''/'' # sub) = splitOn CHR ''/'' name @ splitOn CHR ''/'' sub"
    by (rule splitOn_append)
  with a show ?thesis
    by (cases name) (auto simp: packageName_def startsWith_def splitOn_no_sep)
qed

lemma packageName_idem: "packageName (packageName d) = packageName d"
proof (cases "startsWith d ''@''")
  case True
  let ?n = "packageName d"
  from True have sw: "startsWith ?n ''@''" by (simp add: startsWith_packageName)
  from True have "slashes ?n \<le> 1" by (simp add: slashes_packageName)
  then have "length (splitOn CHR ''/'' ?n) \<le> 2"
    by (simp add: length_splitOn slashes_def)
  then have "take 2 (splitOn CHR ''/'' ?n) = splitOn CHR ''/'' ?n" by simp
  with sw have "packageName ?n = joinWith ''/'' (splitOn CHR ''/'' ?n)"
    by (simp add: packageName_def)
  then show ?thesis by (simp add: join_splitOn)
next
  case False
  let ?n = "packageName d"
  from False have sw: "\<not> startsWith ?n ''@''" by (simp add: startsWith_packageName)
  from False have "slashes ?n = 0" by (simp add: slashes_packageName)
  then have "CHR ''/'' \<notin> set ?n" by (auto simp: slashes_def filter_empty_conv)
  then have "splitOn CHR ''/'' ?n = [?n]" by (rule splitOn_no_sep)
  with sw show ?thesis by (simp add: packageName_def)
qed

section \<open>What a scan collects\<close>

definition sourceOf :: "scan_env \<Rightarrow> entry \<Rightarrow> string option" where
  "sourceOf env e = (case e of File key \<Rightarrow> readFile (files env) key | Blob p content \<Rightarrow> Some content)"

definition importedBy :: "scan_env \<Rightarrow> entry set \<Rightarrow> string \<Rightarrow> bool" where
  "importedBy env es d =
     (\<exists>e code. e \<in> es \<and> sourceOf env e = Some code \<and> d \<in> set (requireMatches code))"

lemma importedBy_mono: "importedBy env es d \<Longrightarrow> es \<subseteq> es' \<Longrightarrow> importedBy env es' d"
  unfolding importedBy_def by blast

lemma importedBy_Un: "importedBy env (a \<union> b) d \<Longrightarrow> importedBy env a d \<or> importedBy env b d"
  unfolding importedBy_def by blast

lemma in_deps_addDep:
  "n \<notin> set (builtinModules env) \<Longrightarrow> n \<in> set (deps (addDep env n st))"
  by (simp add: addDep_def)

lemma imports_collected:
  "scanDeps env entry st = (None, st') \<Longrightarrow>
     \<not> startsWith d ''.'' \<Longrightarrow> packageName d \<notin> set (builtinModules env) \<Longrightarrow>
     importedBy env (set (visited st') - set (visited st)) d \<Longrightarrow>
     packageName d \<in> set (deps st')"
  "scanLoop env entry ds st = (None, st') \<Longrightarrow>
     \<not> startsWith d ''.'' \<Longrightarrow> packageName d \<notin> set (builtinModules env) \<Longrightarrow>
     d \<in> set ds \<or> importedBy env (set (visited st') - set (visited st)) d \<Longrightarrow>
     packageName d \<in> set (deps st')"
proof (induction env entry st and env entry ds st arbitrary: st' and st'
       rule: scanDeps_scanLoop.induct)
  case (1 env entry st)
  note scanDeps.simps [simp]
  show ?case
  proof (cases "setHas (visited st) entry")
    case True
    with "1.prems"(1) have "visited st' = visited st" by auto
    with "1.prems"(4) show ?thesis by (simp add: importedBy_def)
  next
    case False
    show ?thesis
    proof (cases entry)
      case (File key)
      show ?thesis
      proof (cases "readFile (files env) key")
        case None
        with False File "1.prems"(1) show ?thesis by simp
      next
        case (Some code0)
        let ?st1 = "st\<lparr>visited := setAdd (visited st) entry, trace := trace st @ [FsReadFile key]\<rparr>"
        from False File Some "1.prems"(1)
        have loop: "scanLoop env entry (requireMatches code0) ?st1 = (None, st')" by simp
        have "set (visited st') - set (visited st)
            \<subseteq> {entry} \<union> (set (visited st') - set (visited ?st1))" by auto
        with "1.prems"(4) have "importedBy env ({entry} \<union> (set (visited st') - set (visited ?st1))) d"
          by (rule importedBy_mono)
        then have "importedBy env {entry} d \<or> importedBy env (set (visited st') - set (visited ?st1)) d"
          by (rule importedBy_Un)
        moreover have "importedBy env {entry} d \<Longrightarrow> d \<in> set (requireMatches code0)"
          using File Some by (auto simp: importedBy_def sourceOf_def)
        ultimately have "d \<in> set (requireMatches code0)
            \<or> importedBy env (set (visited st') - set (visited ?st1)) d" by blast
        from "1.IH"(1) [OF False File Some loop "1.prems"(2,3) this] show ?thesis .
      qed
    next
      case (Blob p content)
      let ?st1 = "st\<lparr>visited := setAdd (visited st) entry\<rparr>"
      from False Blob "1.prems"(1)
      have loop: "scanLoop env entry (requireMatches content) ?st1 = (None, st')" by simp
      have "set (visited st') - set (visited st)
          \<subseteq> {entry} \<union> (set (visited st') - set (visited ?st1))" by auto
      with "1.prems"(4) have "importedBy env ({entry} \<union> (set (visited st') - set (visited ?st1))) d"
        by (rule importedBy_mono)
      then have "importedBy env {entry} d \<or> importedBy env (set (visited st') - set (visited ?st1)) d"
        by (rule importedBy_Un)
      moreover have "importedBy env {entry} d \<Longrightarrow> d \<in> set (requireMatches content)"
        using Blob by (auto simp: importedBy_def sourceOf_def)
      ultimately have "d \<in> set (requireMatches content)
          \<or> importedBy env (set (visited st') - set (visited ?st1)) d" by blast
      from "1.IH"(2) [OF False Blob loop "1.prems"(2,3) this] show ?thesis .
    qed
  qed
next
  case (2 env entry st)
  then show ?case by (simp add: importedBy_def)
next
  case (3 env entry dep rest st)
  show ?case
  proof (cases "startsWith dep ''.''")
    case True
    show ?thesis
    proof (cases "requireResolve env (importTarget env entry dep)")
      case None
      with True "3.prems"(1) show ?thesis by simp
    next
      case (Some sub)
      obtain r1 st1 where s1: "scanDeps env (File sub) st = (r1, st1)" by fastforce
      with True Some "3.prems"(1) have r1: "r1 = None" by (cases r1) auto
      with True Some s1 "3.prems"(1) have s2: "scanLoop env entry rest st1 = (None, st')" by simp
      from s1 r1 have s1': "scanDeps env (File sub) st = (None, st1)" by simp
      then have s1'': "(None, st1) = scanDeps env (File sub) st" by simp
      from True "3.prems"(2,4) have
        "d \<in> set rest \<or> importedBy env (set (visited st') - set (visited st)) d" by auto
      moreover have "set (visited st') - set (visited st)
          \<subseteq> (set (visited st1) - set (visited st)) \<union> (set (visited st') - set (visited st1))"
        by auto
      ultimately have "d \<in> set rest \<or> importedBy env (set (visited st1) - set (visited st)) d
          \<or> importedBy env (set (visited st') - set (visited st1)) d"
        using importedBy_mono importedBy_Un by blast
      then consider (a) "importedBy env (set (visited st1) - set (visited st)) d"
        | (b) "d \<in> set rest \<or> importedBy env (set (visited st') - set (visited st1)) d" by blast
      then show ?thesis
      proof cases
        case a
        from "3.IH"(1) [OF True Some s1' "3.prems"(2,3) a]
        have "packageName d \<in> set (deps st1)" .
        with deps_grows(2) [OF s2] show ?thesis by blast
      next
        case b
        from "3.IH"(2) [OF True Some s1'' refl s2 "3.prems"(2,3) b] show ?thesis .
      qed
    qed
  next
    case False
    let ?st1 = "addDep env (packageName dep) st"
    from False "3.prems"(1) have s: "scanLoop env entry rest ?st1 = (None, st')" by simp
    show ?thesis
    proof (cases "d = dep")
      case True
      with "3.prems"(3) have "packageName d \<in> set (deps ?st1)" by (simp add: in_deps_addDep)
      with deps_grows(2) [OF s] show ?thesis by blast
    next
      case False
      with "3.prems"(4) have "d \<in> set rest
          \<or> importedBy env (set (visited st') - set (visited ?st1)) d" by auto
      from "3.IH"(3) [OF \<open>\<not> startsWith dep ''.''\<close> s "3.prems"(2,3) this] show ?thesis .
    qed
  qed
qed

lemma deps_origin:
  "scanDeps env entry st = (r, st') \<Longrightarrow>
     \<forall>n \<in> set (deps st'). n \<in> set (deps st) \<or> (\<exists>d. n = packageName d)"
  "scanLoop env entry ds st = (r, st') \<Longrightarrow>
     \<forall>n \<in> set (deps st'). n \<in> set (deps st) \<or> (\<exists>d. n = packageName d)"
  by (rule scan_rel [where R = "\<lambda>a b. \<forall>n \<in> set (deps b).
        n \<in> set (deps a) \<or> (\<exists>d. n = packageName d)" and env = env];
      auto simp: addDep_def)+

text \<open>
  Claim C3. Take a scan that starts with empty sets and returns without an error, any
  source unit it visited, and any import specifier that the regular expression extracts
  from that unit's text, that is not relative, and whose package name is not a built-in
  module. Then the package name is in the dependency set. The package name is the
  specifier cut before its second slash when it starts with \<open>@\<close> and before its first
  slash otherwise (the whole specifier when it has no such slash): it is the specifier
  itself or is followed in it by a slash, and it holds one slash at most in the first case
  and none in the second. A specifier with a deeper path is not itself in the set. In
  particular \<^verbatim>\<open>@scope/name/deep\<close> gives \<^verbatim>\<open>@scope/name\<close> and \<^verbatim>\<open>name/sub\<close> gives
  \<^verbatim>\<open>name\<close>.
\<close>

theorem import_specifiers_normalised:
  assumes scan: "scanDeps env entry \<lparr>deps = [], visited = [], trace = []\<rparr> = (None, st')"
    and vis: "e \<in> set (visited st')"
    and src: "sourceOf env e = Some code"
    and imp: "dep \<in> set (requireMatches code)"
    and ext: "\<not> startsWith dep ''.''"
    and nob: "packageName dep \<notin> set (builtinModules env)"
  shows "packageName dep \<in> set (deps st') \<and>
         (dep = packageName dep \<or> (\<exists>rest. dep = packageName dep @ ''/'' @ rest)) \<and>
         slashes (packageName dep) = (if startsWith dep ''@'' then min 1 (slashes dep) else 0) \<and>
         (packageName dep \<noteq> dep \<longrightarrow> dep \<notin> set (deps st')) \<and>
         (CHR ''/'' \<notin> set scope \<longrightarrow> CHR ''/'' \<notin> set name \<longrightarrow>
            packageName (''@'' @ scope @ ''/'' @ name @ ''/'' @ deep) = ''@'' @ scope @ ''/'' @ name) \<and>
         (CHR ''/'' \<notin> set name \<longrightarrow> \<not> startsWith name ''@'' \<longrightarrow> name \<noteq> [] \<longrightarrow>
            packageName (name @ ''/'' @ sub) = name)"
proof (intro conjI)
  from vis src imp
  have "importedBy env (set (visited st') - set (visited \<lparr>deps = [], visited = [], trace = []\<rparr>)) dep"
    by (auto simp: importedBy_def)
  from imports_collected(1) [OF scan ext nob this]
  show "packageName dep \<in> set (deps st')" .
next
  show "dep = packageName dep \<or> (\<exists>rest. dep = packageName dep @ ''/'' @ rest)"
    by (rule packageName_prefix)
next
  show "slashes (packageName dep) = (if startsWith dep ''@'' then min 1 (slashes dep) else 0)"
    by (rule slashes_packageName)
next
  show "packageName dep \<noteq> dep \<longrightarrow> dep \<notin> set (deps st')"
  proof (intro impI notI)
    assume ne: "packageName dep \<noteq> dep" and "dep \<in> set (deps st')"
    with deps_origin(1) [OF scan] obtain d where "dep = packageName d" by auto
    then have "packageName dep = dep" by (simp add: packageName_idem)
    with ne show False by simp
  qed
next
  show "CHR ''/'' \<notin> set scope \<longrightarrow> CHR ''/'' \<notin> set name \<longrightarrow>
      packageName (''@'' @ scope @ ''/'' @ name @ ''/'' @ deep) = ''@'' @ scope @ ''/'' @ name"
    using packageName_scoped by blast
next
  show "CHR ''/'' \<notin> set name \<longrightarrow> \<not> startsWith name ''@'' \<longrightarrow> name \<noteq> [] \<longrightarrow>
      packageName (name @ ''/'' @ sub) = name"
    using packageName_bare by blast
qed

definition scopedFiles :: fs where
  "scopedFiles =
     [([''app''], DirNode),
      ([''app'', ''main.js''],
         FileNode (requireText (CHR 0x22) ''@scope/pkg/deep/path'' @ '';''
                   @ requireText (CHR 0x27) ''pkg/sub'' @ '';''
                   @ requireText (CHR 0x27) ''fs'' @ '';''))]"

definition scopedEnv :: scan_env where
  "scopedEnv = \<lparr>files = scopedFiles, pcwd = [''app''], builtinModules = [''fs'', ''path''],
     requireResolve = loadAsFile scopedFiles [''app'']\<rparr>"

theorem import_specifiers_normalised_witness:
  "scanDeps scopedEnv (File [''app'', ''main.js'']) \<lparr>deps = [], visited = [], trace = []\<rparr>
     = (None, \<lparr>deps = [''@scope/pkg'', ''pkg''], visited = [File [''app'', ''main.js'']],
               trace = [FsReadFile [''app'', ''main.js'']]\<rparr>) \<and>
   packageName ''@scope/pkg/deep/path'' = ''@scope/pkg'' \<and>
   ''@scope/pkg'' \<in> set [''@scope/pkg'', ''pkg''] \<and>
   ''@scope/pkg/deep/path'' \<notin> set [''@scope/pkg'', ''pkg''] \<and>
   packageName ''pkg/sub'' = ''pkg'' \<and>
   ''pkg'' \<in> set [''@scope/pkg'', ''pkg''] \<and>
   ''pkg/sub'' \<notin> set [''@scope/pkg'', ''pkg'']"
proof -
  let ?code = "requireText (CHR 0x22) ''@scope/pkg/deep/path'' @ '';''
                   @ requireText (CHR 0x27) ''pkg/sub'' @ '';''
                   @ requireText (CHR 0x27) ''fs'' @ '';''"
  let ?st = "\<lparr>deps = [''@scope/pkg'', ''pkg''], visited = [File [''app'', ''main.js'']],
               trace = [FsReadFile [''app'', ''main.js'']]\<rparr>"
  have scan: "scanDeps scopedEnv (File [''app'', ''main.js''])
      \<lparr>deps = [], visited = [], trace = []\<rparr> = (None, ?st)"
    by code_simp
  have vis: "File [''app'', ''main.js''] \<in> set (visited ?st)" by simp
  have src: "sourceOf scopedEnv (File [''app'', ''main.js'']) = Some ?code" by code_simp
  have m: "requireMatches ?code = [''@scope/pkg/deep/path'', ''pkg/sub'', ''fs'']" by code_simp
  have imp1: "''@scope/pkg/deep/path'' \<in> set (requireMatches ?code)"
    and imp2: "''pkg/sub'' \<in> set (requireMatches ?code)"
    unfolding m by simp_all
  have p1: "packageName ''@scope/pkg/deep/path'' = ''@scope/pkg''"
    and p2: "packageName ''pkg/sub'' = ''pkg''" by code_simp+
  have ext1: "\<not> startsWith ''@scope/pkg/deep/path'' ''.''"
    and ext2: "\<not> startsWith ''pkg/sub'' ''.''" by (simp_all add: startsWith_def)
  have nob1: "packageName ''@scope/pkg/deep/path'' \<notin> set (builtinModules scopedEnv)"
    and nob2: "packageName ''pkg/sub'' \<notin> set (builtinModules scopedEnv)"
    unfolding p1 p2 by (simp_all add: scopedEnv_def)
  from import_specifiers_normalised [OF scan vis src imp1 ext1 nob1]
       import_specifiers_normalised [OF scan vis src imp2 ext2 nob2] scan p1 p2
  show ?thesis by simp
qed

section \<open>What an invocation does, step by step\<close>

text \<open>
  The effects of one kind, in the order they happened.
\<close>

fun spawns :: "effect list \<Rightarrow> spawn_call list" where
  "spawns [] = []"
| "spawns (Spawn c # es) = c # spawns es"
| "spawns (e # es) = spawns es"

fun removals :: "effect list \<Rightarrow> string list list" where
  "removals [] = []"
| "removals (FsRm key # es) = key # removals es"
| "removals (e # es) = removals es"

fun warnings :: "effect list \<Rightarrow> entry list" where
  "warnings [] = []"
| "warnings (ConsoleWarn e # es) = e # warnings es"
| "warnings (e # es) = warnings es"

fun readsOf :: "effect list \<Rightarrow> string list list" where
  "readsOf [] = []"
| "readsOf (FsReadFile key # es) = key # readsOf es"
| "readsOf (e # es) = readsOf es"

lemma spawns_append [simp]: "spawns (a @ b) = spawns a @ spawns b"
  by (induction a rule: spawns.induct) simp_all

lemma removals_append [simp]: "removals (a @ b) = removals a @ removals b"
  by (induction a rule: removals.induct) simp_all

lemma warnings_append [simp]: "warnings (a @ b) = warnings a @ warnings b"
  by (induction a rule: warnings.induct) simp_all

lemma readsOf_append [simp]: "readsOf (a @ b) = readsOf a @ readsOf b"
  by (induction a rule: readsOf.induct) simp_all

lemma scan_trace_quiet:
  "scanDeps env entry st = (r, st') \<Longrightarrow>
     spawns (trace st') = spawns (trace st) \<and> removals (trace st') = removals (trace st)"
  "scanLoop env entry ds st = (r, st') \<Longrightarrow>
     spawns (trace st') = spawns (trace st) \<and> removals (trace st') = removals (trace st)"
  by (rule scan_rel [where R = "\<lambda>a b. spawns (trace b) = spawns (trace a) \<and>
        removals (trace b) = removals (trace a)" and env = env]; simp)+

lemma runScript_cases [consumes 1, case_names mkdir_failed write_failed install_failed
    run_failed finished]:
  assumes "runScript pwd pe options rest entry ds w = (r, w')"
  obtains
    err f where "ensureCwd pwd options w = (Some err, f, w')" "r = Some err"
  | cleanCwd w1 err f where "ensureCwd pwd options w = (None, cleanCwd, w1)"
      "ensurePkg pwd options w1 = (Some err, f, w')" "r = Some err"
  | cleanCwd w1 cleanPkg w2 err where "ensureCwd pwd options w = (None, cleanCwd, w1)"
      "ensurePkg pwd options w1 = (None, cleanPkg, w2)"
      "installDeps pe ds options w2 = (Some err, w')" "r = Some err"
  | cleanCwd w1 cleanPkg w2 w3 err where "ensureCwd pwd options w = (None, cleanCwd, w1)"
      "ensurePkg pwd options w1 = (None, cleanPkg, w2)"
      "installDeps pe ds options w2 = (None, w3)"
      "spawnAsync pe ''node'' rest (runOptions pwd pe options entry) w3 = (Some err, w')"
      "r = Some err"
  | cleanCwd w1 cleanPkg w2 w3 w4 where "ensureCwd pwd options w = (None, cleanCwd, w1)"
      "ensurePkg pwd options w1 = (None, cleanPkg, w2)"
      "installDeps pe ds options w2 = (None, w3)"
      "spawnAsync pe ''node'' rest (runOptions pwd pe options entry) w3 = (None, w4)"
      "r = None"
      "w' = (if clean options
             then cleanArtifacts pwd options cleanCwd cleanPkg
                    (\<not> exists (fst w2) pwd (modulesPath pwd options)) w4
             else w4)"
proof -
  obtain e1 cleanCwd w1 where s1: "ensureCwd pwd options w = (e1, cleanCwd, w1)"
    by (cases "ensureCwd pwd options w") auto
  obtain e2 cleanPkg w2 where s2: "ensurePkg pwd options w1 = (e2, cleanPkg, w2)"
    by (cases "ensurePkg pwd options w1") auto
  obtain e3 w3 where s3: "installDeps pe ds options w2 = (e3, w3)"
    by (cases "installDeps pe ds options w2") auto
  obtain e4 w4 where s4: "spawnAsync pe ''node'' rest (runOptions pwd pe options entry) w3 = (e4, w4)"
    by (cases "spawnAsync pe ''node'' rest (runOptions pwd pe options entry) w3") auto
  show ?thesis
  proof (cases e1)
    case (Some err)
    with assms s1 have "w' = w1" "r = Some err" by (simp_all add: runScript_def)
    with s1 Some show ?thesis by (intro that(1)) simp_all
  next
    case n1: None
    show ?thesis
    proof (cases e2)
      case (Some err)
      with assms s1 s2 n1 have "w' = w2" "r = Some err" by (simp_all add: runScript_def)
      with s1 s2 n1 Some show ?thesis by (intro that(2)) simp_all
    next
      case n2: None
      show ?thesis
      proof (cases e3)
        case (Some err)
        with assms s1 s2 s3 n1 n2 have "w' = w3" "r = Some err"
          by (simp_all add: runScript_def)
        with s1 s2 s3 n1 n2 Some show ?thesis by (intro that(3)) simp_all
      next
        case n3: None
        show ?thesis
        proof (cases e4)
          case (Some err)
          with assms s1 s2 s3 s4 n1 n2 n3 have "w' = w4" "r = Some err"
            by (simp_all add: runScript_def)
          with s1 s2 s3 s4 n1 n2 n3 Some show ?thesis by (intro that(4)) simp_all
        next
          case n4: None
          with assms s1 s2 s3 s4 n1 n2 n3 have "r = None"
            "w' = (if clean options
             then cleanArtifacts pwd options cleanCwd cleanPkg
                    (\<not> exists (fst w2) pwd (modulesPath pwd options)) w4
             else w4)"
            by (simp_all add: runScript_def split: if_splits)
          with s1 s2 s3 s4 n1 n2 n3 n4 show ?thesis by (intro that(5)) simp_all
        qed
      qed
    qed
  qed
qed

lemma main_cases [consumes 1, case_names parse_failed help_shown no_entry resolve_failed
    scan_failed scanned]:
  assumes "main env pe = (r, w')"
  obtains
    err where "parseArgs (pcwd env) (argv pe) = Inl err" "r = Some err" "w' = (files env, [])"
  | options rest where "parseArgs (pcwd env) (argv pe) = Inr (options, rest)" "helpOpt options"
      "r = None" "w' = (files env, [ConsoleErrorUsage])"
  | options rest where "parseArgs (pcwd env) (argv pe) = Inr (options, rest)" "\<not> helpOpt options"
      "rest = [] \<or> hd rest = []" "r = Some EntryFileRequired" "w' = (files env, [ConsoleErrorUsage])"
  | options entryFile others err where
      "parseArgs (pcwd env) (argv pe) = Inr (options, entryFile # others)" "\<not> helpOpt options"
      "entryFile \<noteq> []" "resolveEntry env pe entryFile = Inl err" "r = Some err"
      "w' = (files env, [])"
  | options entryFile others entry err st where
      "parseArgs (pcwd env) (argv pe) = Inr (options, entryFile # others)" "\<not> helpOpt options"
      "entryFile \<noteq> []" "resolveEntry env pe entryFile = Inr entry"
      "scanDeps env entry \<lparr>deps = [], visited = [], trace = []\<rparr> = (Some err, st)"
      "r = Some err" "w' = (files env, trace st)"
  | options entryFile others entry st where
      "parseArgs (pcwd env) (argv pe) = Inr (options, entryFile # others)" "\<not> helpOpt options"
      "entryFile \<noteq> []" "resolveEntry env pe entryFile = Inr entry"
      "scanDeps env entry \<lparr>deps = [], visited = [], trace = []\<rparr> = (None, st)"
      "runScript (pcwd env) pe options (entryFile # others) entry (deps st) (files env, trace st)
         = (r, w')"
proof (cases "parseArgs (pcwd env) (argv pe)")
  case (Inl err)
  with assms show ?thesis by (intro that(1)) (auto simp: main_def)
next
  case (Inr pr)
  obtain options rest where pr: "pr = (options, rest)" by (cases pr)
  show ?thesis
  proof (cases "helpOpt options")
    case True
    with assms Inr pr show ?thesis by (intro that(2) [of options rest]) (auto simp: main_def)
  next
    case nh: False
    show ?thesis
    proof (cases "rest = [] \<or> hd rest = []")
      case True
      with assms Inr pr nh show ?thesis
        by (intro that(3) [of options rest]) (auto simp: main_def split: list.splits)
    next
      case False
      then obtain entryFile others where rest: "rest = entryFile # others" "entryFile \<noteq> []"
        by (cases rest) auto
      show ?thesis
      proof (cases "resolveEntry env pe entryFile")
        case (Inl err)
        with assms Inr pr nh rest show ?thesis
          by (intro that(4) [of options entryFile others err]) (auto simp: main_def)
      next
        case re: (Inr entry)
        obtain e st where sc: "scanDeps env entry \<lparr>deps = [], visited = [], trace = []\<rparr> = (e, st)"
          by (cases "scanDeps env entry \<lparr>deps = [], visited = [], trace = []\<rparr>") auto
        show ?thesis
        proof (cases e)
          case (Some err)
          with assms Inr pr nh rest re sc show ?thesis
            by (intro that(5) [of options entryFile others entry err st]) (auto simp: main_def)
        next
          case None
          with assms Inr pr nh rest re sc show ?thesis
            by (intro that(6) [of options entryFile others entry st]) (auto simp: main_def)
        qed
      qed
    qed
  qed
qed

lemma ensureCwd_trace:
  "ensureCwd pwd options w = (e, f, w1) \<Longrightarrow>
     spawns (snd w1) = spawns (snd w) \<and> removals (snd w1) = removals (snd w)"
  by (auto simp: ensureCwd_def Let_def split: if_splits option.splits)

lemma ensurePkg_trace:
  "ensurePkg pwd options w = (e, f, w1) \<Longrightarrow>
     spawns (snd w1) = spawns (snd w) \<and> removals (snd w1) = removals (snd w)"
  by (auto simp: ensurePkg_def Let_def split: if_splits option.splits)

lemma spawnAsync_trace:
  "spawnAsync pe cmd as opts w = (e, w1) \<Longrightarrow> snd w1 = snd w @ [Spawn (spawnCall cmd as opts)]"
  by (auto simp: spawnAsync_def Let_def split: prod.splits)

definition ownedKeys :: "string list \<Rightarrow> cli_options \<Rightarrow> bool \<Rightarrow> bool \<Rightarrow> bool \<Rightarrow> string list list" where
  "ownedKeys pwd options cleanCwd cleanPkg cleanModules =
     (if cleanModules then [osKey pwd (modulesPath pwd options)] else []) @
     (if cleanPkg then [osKey pwd (pkgFile pwd options)] else []) @
     (if cleanCwd then [osKey pwd (cwd options)] else [])"

lemma cleanArtifacts_trace:
  "snd (cleanArtifacts pwd options cleanCwd cleanPkg cleanModules w)
     = snd w @ map FsRm (ownedKeys pwd options cleanCwd cleanPkg cleanModules)"
  by (simp add: cleanArtifacts_def fsRm_def ownedKeys_def Let_def)

lemma spawns_map_FsRm [simp]: "spawns (map FsRm ks) = []"
  by (induction ks) simp_all

lemma removals_map_FsRm [simp]: "removals (map FsRm ks) = ks"
  by (induction ks) simp_all

lemma runScript_spawns:
  assumes "runScript pwd pe options rest entry ds w = (r, w')"
    and "call \<in> set (spawns (snd w'))"
  shows "call \<in> set (spawns (snd w))
     \<or> call = spawnCall ''npm'' (installArgs ds) (spawnOptions options)
     \<or> call = spawnCall ''node'' rest (runOptions pwd pe options entry)"
  using assms
proof (cases rule: runScript_cases)
  case (mkdir_failed err f)
  with assms(2) ensureCwd_trace [OF mkdir_failed(1)] show ?thesis by simp
next
  case (write_failed cleanCwd w1 err f)
  with assms(2) ensureCwd_trace [OF write_failed(1)] ensurePkg_trace [OF write_failed(2)]
  show ?thesis by simp
next
  case (install_failed cleanCwd w1 cleanPkg w2 err)
  with assms(2) ensureCwd_trace [OF install_failed(1)] ensurePkg_trace [OF install_failed(2)]
    spawnAsync_trace [OF install_failed(3) [unfolded installDeps_def]]
  show ?thesis by auto
next
  case (run_failed cleanCwd w1 cleanPkg w2 w3 err)
  with assms(2) ensureCwd_trace [OF run_failed(1)] ensurePkg_trace [OF run_failed(2)]
    spawnAsync_trace [OF run_failed(3) [unfolded installDeps_def]]
    spawnAsync_trace [OF run_failed(4)]
  show ?thesis by auto
next
  case (finished cleanCwd w1 cleanPkg w2 w3 w4)
  with assms(2) ensureCwd_trace [OF finished(1)] ensurePkg_trace [OF finished(2)]
    spawnAsync_trace [OF finished(3) [unfolded installDeps_def]]
    spawnAsync_trace [OF finished(4)]
  show ?thesis by (auto simp: cleanArtifacts_trace split: if_splits)
qed

lemma main_spawns:
  assumes "main env pe = (r, w')" and "call \<in> set (spawns (snd w'))"
  obtains options rest entry st where
    "parseArgs (pcwd env) (argv pe) = Inr (options, rest)"
    "scanDeps env entry \<lparr>deps = [], visited = [], trace = []\<rparr> = (None, st)"
    "resolveEntry env pe (hd rest) = Inr entry"
    "call = spawnCall ''npm'' (installArgs (deps st)) (spawnOptions options)
       \<or> call = spawnCall ''node'' rest (runOptions (pcwd env) pe options entry)"
  using assms(1)
proof (cases rule: main_cases)
  case (parse_failed err)
  with assms(2) show ?thesis by simp
next
  case (help_shown options rest)
  with assms(2) show ?thesis by simp
next
  case (no_entry options rest)
  with assms(2) show ?thesis by simp
next
  case (resolve_failed options entryFile others err)
  with assms(2) show ?thesis by simp
next
  case (scan_failed options entryFile others entry err st)
  with assms(2) scan_trace_quiet(1) [OF scan_failed(5)] show ?thesis by simp
next
  case (scanned options entryFile others entry st)
  from runScript_spawns [OF scanned(6) assms(2)] scan_trace_quiet(1) [OF scanned(5)]
  have "call = spawnCall ''npm'' (installArgs (deps st)) (spawnOptions options)
       \<or> call = spawnCall ''node'' (entryFile # others) (runOptions (pcwd env) pe options entry)"
    by simp
  with scanned show ?thesis by (intro that [of options "entryFile # others" entry st]) simp_all
qed

section \<open>Built-in modules\<close>

lemma addAll_builtins:
  "list_all (\<lambda>d. packageName d \<in> set (builtinModules env)) ds \<Longrightarrow>
     addAll env ds st = st"
  unfolding addAll_def by (induction ds arbitrary: st) (simp_all add: addDep_def)

text \<open>
  Claim C4. No name of \<open>builtinModules\<close> is ever in the dependency set of a scan that
  starts with empty sets, whatever the scan meets and however it ends. Whenever an
  invocation starts the installer, its arguments are the three fixed words followed by
  names none of which is a built-in module. A source unit all of whose imports are
  (after normalisation) built-in modules is scanned without error and leaves the
  dependency set empty.
\<close>

theorem builtins_never_installed:
  "(main env pe = (r, w') \<longrightarrow> call \<in> set (spawns (snd w')) \<longrightarrow> command call = ''npm'' \<longrightarrow>
      (\<exists>ds. args call = installArgs ds \<and> set ds \<inter> set (builtinModules env) = {})) \<and>
   (scanDeps env entry \<lparr>deps = [], visited = [], trace = []\<rparr> = (r', st') \<longrightarrow>
      set (deps st') \<inter> set (builtinModules env) = {}) \<and>
   (sourceOf env entry = Some code \<longrightarrow>
    list_all (\<lambda>d. \<not> startsWith d ''.'' \<and> packageName d \<in> set (builtinModules env))
      (requireMatches code) \<longrightarrow>
      (\<exists>st''. scanDeps env entry \<lparr>deps = [], visited = [], trace = []\<rparr> = (None, st'') \<and>
           deps st'' = []))"
proof (intro conjI impI)
  assume m: "main env pe = (r, w')" and c: "call \<in> set (spawns (snd w'))"
    and npm: "command call = ''npm''"
  from m c obtain options rest ent st where
    sc: "scanDeps env ent \<lparr>deps = [], visited = [], trace = []\<rparr> = (None, st)"
    and call: "call = spawnCall ''npm'' (installArgs (deps st)) (spawnOptions options)
       \<or> call = spawnCall ''node'' rest (runOptions (pcwd env) pe options ent)"
    by (rule main_spawns)
  from call npm have "args call = installArgs (deps st)" by (auto simp: spawnCall_def)
  moreover from builtins_kept_out(1) [OF sc]
  have "set (deps st) \<inter> set (builtinModules env) = {}" by simp
  ultimately show "\<exists>ds. args call = installArgs ds \<and> set ds \<inter> set (builtinModules env) = {}"
    by blast
next
  assume "scanDeps env entry \<lparr>deps = [], visited = [], trace = []\<rparr> = (r', st')"
  from builtins_kept_out(1) [OF this]
  show "set (deps st') \<inter> set (builtinModules env) = {}" by simp
next
  assume src: "sourceOf env entry = Some code"
    and all: "list_all (\<lambda>d. \<not> startsWith d ''.'' \<and> packageName d \<in> set (builtinModules env))
      (requireMatches code)"
  from all have ext: "list_all (\<lambda>d. \<not> startsWith d ''.'') (requireMatches code)"
    and bi: "list_all (\<lambda>d. packageName d \<in> set (builtinModules env)) (requireMatches code)"
    by (simp_all add: list_all_iff)
  show "\<exists>st''. scanDeps env entry \<lparr>deps = [], visited = [], trace = []\<rparr> = (None, st'') \<and>
           deps st'' = []"
  proof (cases entry)
    case (File key)
    with src have "readFile (files env) key = Some code" by (simp add: sourceOf_def)
    with File ext bi show ?thesis
      by (simp add: scanDeps.simps setHas_def scanLoop_external addAll_builtins)
  next
    case (Blob p content)
    with src have "content = code" by (simp add: sourceOf_def)
    with Blob ext bi show ?thesis
      by (simp add: scanDeps.simps setHas_def scanLoop_external addAll_builtins)
  qed
qed

definition nodeBuiltins :: "string list" where
  "nodeBuiltins = [''assert'', ''child_process'', ''fs'', ''fs/promises'', ''module'', ''os'',
     ''path'', ''util'']"

definition npmInstalls :: "string list \<Rightarrow> spawn_call \<Rightarrow> fs \<Rightarrow> child_exit \<times> fs" where
  "npmInstalls pwd call fls =
     (if command call = ''npm''
      then (ChildClose (Some 0) None,
            (case spawnCwd call of
               None \<Rightarrow> fls
             | Some dir \<Rightarrow>
                 if args call = installArgs [] then fls
                 else fsPut fls (osKey pwd dir @ [''node_modules'']) DirNode))
      else (ChildClose (Some 0) None, fls))"

definition builtinFiles :: fs where
  "builtinFiles =
     [([''app''], DirNode),
      ([''app'', ''main.js''],
         FileNode (''const fs = '' @ requireText (CHR 0x27) ''fs'' @ '';''
                   @ requireText (CHR 0x22) ''path'' @ '';''
                   @ requireText (CHR 0x27) ''fs/promises'' @ '';''))]"

definition builtinEnv :: scan_env where
  "builtinEnv = \<lparr>files = builtinFiles, pcwd = [''app''], builtinModules = nodeBuiltins,
     requireResolve = loadAsFile builtinFiles [''app'']\<rparr>"

definition builtinRun :: process_env where
  "builtinRun = \<lparr>argv = [''main.js''], stdinChunks = [], processEnv = [(''HOME'', ''/root'')],
     spawnChild = npmInstalls [''app'']\<rparr>"

theorem builtins_never_installed_witness:
  "main builtinEnv builtinRun =
     (None,
      fsPut builtinFiles [''app'', ''package.json''] (FileNode ''{}''),
      [FsReadFile [''app'', ''main.js''],
       FsWriteFile [''app'', ''package.json''] ''{}'',
       Spawn (spawnCall ''npm'' (installArgs []) (spawnOptions
          \<lparr>cwd = ''.'', silent = False, clean = False, helpOpt = False\<rparr>)),
       Spawn (spawnCall ''node'' [''main.js''] (runOptions [''app''] builtinRun
          \<lparr>cwd = ''.'', silent = False, clean = False, helpOpt = False\<rparr>
          (File [''app'', ''main.js''])))]) \<and>
   (\<exists>ds. [''install'', ''--no-save'', ''--no-package-lock''] = installArgs ds \<and>
      set ds \<inter> set nodeBuiltins = {}) \<and>
   (\<exists>st. scanDeps builtinEnv (File [''app'', ''main.js''])
           \<lparr>deps = [], visited = [], trace = []\<rparr> = (None, st) \<and> deps st = [])"
proof -
  let ?options = "\<lparr>cwd = ''.'', silent = False, clean = False, helpOpt = False\<rparr>"
  let ?npm = "spawnCall ''npm'' (installArgs []) (spawnOptions ?options)"
  let ?node = "spawnCall ''node'' [''main.js'']
      (runOptions [''app''] builtinRun ?options (File [''app'', ''main.js'']))"
  let ?w = "(fsPut builtinFiles [''app'', ''package.json''] (FileNode ''{}''),
      [FsReadFile [''app'', ''main.js''], FsWriteFile [''app'', ''package.json''] ''{}'',
       Spawn ?npm, Spawn ?node])"
  let ?code = "''const fs = '' @ requireText (CHR 0x27) ''fs'' @ '';''
                   @ requireText (CHR 0x22) ''path'' @ '';''
                   @ requireText (CHR 0x27) ''fs/promises'' @ '';''"
  have m: "main builtinEnv builtinRun = (None, ?w)" by code_simp
  have c: "?npm \<in> set (spawns (snd ?w))" by simp
  have n: "command ?npm = ''npm''" by (simp add: spawnCall_def)
  have a: "args ?npm = [''install'', ''--no-save'', ''--no-package-lock'']"
    by (simp add: spawnCall_def installArgs_def)
  have src: "sourceOf builtinEnv (File [''app'', ''main.js'']) = Some ?code" by code_simp
  have bi: "list_all (\<lambda>d. \<not> startsWith d ''.'' \<and> packageName d \<in> set (builtinModules builtinEnv))
      (requireMatches ?code)"
    by code_simp
  have e: "builtinModules builtinEnv = nodeBuiltins" by (simp add: builtinEnv_def)
  from builtins_never_installed [of builtinEnv builtinRun None ?w ?npm
      "File [''app'', ''main.js'']" None "\<lparr>deps = [], visited = [], trace = []\<rparr>" ?code]
    m c n src bi
  show ?thesis unfolding a e by simp
qed

section \<open>More about scans and invocations\<close>

lemma entry_visited: "scanDeps env entry st = (r, st') \<Longrightarrow> entry \<in> set (visited st')"
proof (cases "setHas (visited st) entry")
  case True
  assume "scanDeps env entry st = (r, st')"
  with True show ?thesis by (auto simp: scanDeps.simps setHas_def)
next
  case False
  assume s: "scanDeps env entry st = (r, st')"
  show ?thesis
  proof (cases entry)
    case (File key)
    show ?thesis
    proof (cases "readFile (files env) key")
      case None
      with s False File show ?thesis by (auto simp: scanDeps.simps)
    next
      case (Some code)
      with s False File have "scanLoop env entry (requireMatches code)
          (st\<lparr>visited := setAdd (visited st) entry, trace := trace st @ [FsReadFile key]\<rparr>)
          = (r, st')"
        by (simp add: scanDeps.simps)
      from visited_grows(2) [OF this] show ?thesis by simp
    qed
  next
    case (Blob p content)
    with s False have "scanLoop env entry (requireMatches content)
        (st\<lparr>visited := setAdd (visited st) entry\<rparr>) = (r, st')"
      by (simp add: scanDeps.simps)
    from visited_grows(2) [OF this] show ?thesis by simp
  qed
qed

lemma runScript_finished_spawns:
  assumes "runScript pwd pe options rest entry ds w = (None, w')"
  shows "spawns (snd w') = spawns (snd w) @
     [spawnCall ''npm'' (installArgs ds) (spawnOptions options),
      spawnCall ''node'' rest (runOptions pwd pe options entry)]"
  using assms
proof (cases rule: runScript_cases)
  case (finished cleanCwd w1 cleanPkg w2 w3 w4)
  with ensureCwd_trace [OF finished(1)] ensurePkg_trace [OF finished(2)]
    spawnAsync_trace [OF finished(3) [unfolded installDeps_def]]
    spawnAsync_trace [OF finished(4)]
  show ?thesis by (auto simp: cleanArtifacts_trace split: if_splits)
qed simp_all

section \<open>The empty specifier\<close>

lemma packageName_empty: "packageName [] = []"
  by (simp add: packageName_def startsWith_def)

lemma requireMatches_empty_specifier:
  "isQuote q \<Longrightarrow> requireMatches (requireText q []) = [[]]"
  by (auto simp: requireMatches_def requireText_def matchHere_def startsWith_def isQuote_def)

text \<open>
  Claim C10. The text \<^verbatim>\<open>require('')\<close>, with either quote character, is an import
  expression whose specifier is the empty string. Whenever the scanner extracts an empty
  specifier from the text of the entry, and the empty string is not in the list of
  built-in modules, a scan that returns without error has the empty string in the
  dependency set, and an installer that the invocation starts has the empty string among
  its arguments.
\<close>

theorem empty_specifier_installed:
  assumes parse: "parseArgs (pcwd env) (argv pe) = Inr (options, entryFile # others)"
    and res: "resolveEntry env pe entryFile = Inr entry"
    and src: "sourceOf env entry = Some code"
    and imp: "[] \<in> set (requireMatches code)"
    and nob: "[] \<notin> set (builtinModules env)"
  shows "(isQuote q \<longrightarrow> requireMatches (requireText q []) = [[]]) \<and>
    (scanDeps env entry \<lparr>deps = [], visited = [], trace = []\<rparr> = (None, st) \<longrightarrow>
       [] \<in> set (deps st)) \<and>
    (main env pe = (r, w') \<longrightarrow> call \<in> set (spawns (snd w')) \<longrightarrow> command call = ''npm'' \<longrightarrow>
       [] \<in> set (args call))"
proof (intro conjI impI)
  assume "isQuote q"
  then show "requireMatches (requireText q []) = [[]]" by (rule requireMatches_empty_specifier)
next
  have coll: "[] \<in> set (deps s)"
    if sc: "scanDeps env entry \<lparr>deps = [], visited = [], trace = []\<rparr> = (None, s)" for s
  proof -
    from entry_visited [OF sc] src imp
    have "importedBy env (set (visited s) - set (visited \<lparr>deps = [], visited = [], trace = []\<rparr>)) []"
      by (auto simp: importedBy_def)
    from imports_collected(1) [OF sc _ _ this] nob show ?thesis
      by (simp add: packageName_empty startsWith_def)
  qed
  {
    assume "scanDeps env entry \<lparr>deps = [], visited = [], trace = []\<rparr> = (None, st)"
    then show "[] \<in> set (deps st)" by (rule coll)
  next
    assume m: "main env pe = (r, w')" and c: "call \<in> set (spawns (snd w'))"
      and npm: "command call = ''npm''"
    from m c obtain options' rest' entry' st' where
      p': "parseArgs (pcwd env) (argv pe) = Inr (options', rest')"
      and sc: "scanDeps env entry' \<lparr>deps = [], visited = [], trace = []\<rparr> = (None, st')"
      and re: "resolveEntry env pe (hd rest') = Inr entry'"
      and call: "call = spawnCall ''npm'' (installArgs (deps st')) (spawnOptions options')
         \<or> call = spawnCall ''node'' rest' (runOptions (pcwd env) pe options' entry')"
      by (rule main_spawns)
    from parse p' res re have "entry' = entry" by simp
    with sc have "[] \<in> set (deps st')" by (intro coll) simp
    moreover from call npm have "args call = installArgs (deps st')"
      by (auto simp: spawnCall_def)
    ultimately show "[] \<in> set (args call)" by (simp add: installArgs_def)
  }
qed

definition emptySpecFiles :: fs where
  "emptySpecFiles =
     [([''app''], DirNode),
      ([''app'', ''main.js''], FileNode (''const x = '' @ requireText (CHR 0x27) [] @ '';''))]"

definition emptySpecEnv :: scan_env where
  "emptySpecEnv = \<lparr>files = emptySpecFiles, pcwd = [''app''], builtinModules = nodeBuiltins,
     requireResolve = loadAsFile emptySpecFiles [''app'']\<rparr>"

definition emptySpecRun :: process_env where
  "emptySpecRun = \<lparr>argv = [''main.js''], stdinChunks = [], processEnv = [],
     spawnChild = npmInstalls [''app'']\<rparr>"

theorem empty_specifier_installed_witness:
  "requireMatches (requireText (CHR 0x27) []) = [[]] \<and>
   scanDeps emptySpecEnv (File [''app'', ''main.js'']) \<lparr>deps = [], visited = [], trace = []\<rparr>
     = (None, \<lparr>deps = [[]], visited = [File [''app'', ''main.js'']],
               trace = [FsReadFile [''app'', ''main.js'']]\<rparr>) \<and>
   [] \<in> set [[]::string] \<and>
   spawns (snd (snd (main emptySpecEnv emptySpecRun))) =
     [spawnCall ''npm'' [''install'', ''--no-save'', ''--no-package-lock'', []]
        (spawnOptions \<lparr>cwd = ''.'', silent = False, clean = False, helpOpt = False\<rparr>),
      spawnCall ''node'' [''main.js''] (runOptions [''app''] emptySpecRun
        \<lparr>cwd = ''.'', silent = False, clean = False, helpOpt = False\<rparr>
        (File [''app'', ''main.js'']))] \<and>
   [] \<in> set [''install'', ''--no-save'', ''--no-package-lock'', []]"
proof -
  let ?options = "\<lparr>cwd = ''.'', silent = False, clean = False, helpOpt = False\<rparr>"
  let ?entry = "File [''app'', ''main.js'']"
  let ?code = "''const x = '' @ requireText (CHR 0x27) [] @ '';''"
  let ?st = "\<lparr>deps = [[]], visited = [?entry], trace = [FsReadFile [''app'', ''main.js'']]\<rparr>"
  let ?npm = "spawnCall ''npm'' [''install'', ''--no-save'', ''--no-package-lock'', []]
        (spawnOptions ?options)"
  let ?node = "spawnCall ''node'' [''main.js''] (runOptions [''app''] emptySpecRun ?options ?entry)"
  have parse: "parseArgs (pcwd emptySpecEnv) (argv emptySpecRun) = Inr (?options, ''main.js'' # [])"
    by code_simp
  have res: "resolveEntry emptySpecEnv emptySpecRun ''main.js'' = Inr ?entry" by code_simp
  have src: "sourceOf emptySpecEnv ?entry = Some ?code" by code_simp
  have imp: "[] \<in> set (requireMatches ?code)" by code_simp
  have nob: "[] \<notin> set (builtinModules emptySpecEnv)" by code_simp
  have q: "isQuote (CHR 0x27)" by (simp add: isQuote_def)
  have sc: "scanDeps emptySpecEnv ?entry \<lparr>deps = [], visited = [], trace = []\<rparr> = (None, ?st)"
    by code_simp
  have sp: "spawns (snd (snd (main emptySpecEnv emptySpecRun))) = [?npm, ?node]" by code_simp
  have m: "main emptySpecEnv emptySpecRun
      = (fst (main emptySpecEnv emptySpecRun), snd (main emptySpecEnv emptySpecRun))" by simp
  have c: "?npm \<in> set (spawns (snd (snd (main emptySpecEnv emptySpecRun))))"
    unfolding sp by simp
  have n: "command ?npm = ''npm''" by (simp add: spawnCall_def)
  have a: "args ?npm = [''install'', ''--no-save'', ''--no-package-lock'', []]"
    by (simp add: spawnCall_def)
  from empty_specifier_installed [OF parse res src imp nob, of "CHR 0x27" ?st
      "fst (main emptySpecEnv emptySpecRun)" "snd (main emptySpecEnv emptySpecRun)" ?npm]
    q sc m c n sp
  show ?thesis unfolding a by simp
qed

section \<open>A script on standard input\<close>

lemma requireMatches_left_pad:
  "requireMatches (requireText (CHR 0x22) ''left-pad'') = [''left-pad'']"
  by code_simp

lemma packageName_left_pad: "packageName ''left-pad'' = ''left-pad''"
  by code_simp

lemma scan_left_pad:
  assumes "''left-pad'' \<notin> set (builtinModules env)"
  shows "scanDeps env (Blob p (requireText (CHR 0x22) ''left-pad''))
      \<lparr>deps = [], visited = [], trace = []\<rparr>
    = (None, \<lparr>deps = [''left-pad''],
              visited = [Blob p (requireText (CHR 0x22) ''left-pad'')], trace = []\<rparr>)"
proof -
  have "\<not> startsWith ''left-pad'' ''.''" by (simp add: startsWith_def)
  with assms show ?thesis
    by (simp add: scanDeps.simps setHas_def setAdd_def requireMatches_left_pad
        packageName_left_pad addDep_def)
qed

text \<open>
  Claim C8. When the entry file argument is \<^verbatim>\<open>-\<close>, the entry is the object whose
  path is \<^verbatim>\<open>-\<close> and whose content is everything read from standard input (all
  chunks, joined), and this object is what is scanned: an installer that the invocation
  starts is given the dependency set of that scan. For the content
  \<^verbatim>\<open>require("left-pad")\<close> (with \<^verbatim>\<open>left-pad\<close> not a built-in module) the scan returns
  without error and its dependency set is exactly \<^verbatim>\<open>left-pad\<close>. A runner that the
  invocation starts is given the arguments from \<^verbatim>\<open>-\<close> on and, when the content is not
  empty, is fed exactly the captured content on its input stream; an invocation that
  succeeds has started the runner.
\<close>

theorem stdin_entry_scanned_and_fed:
  assumes parse: "parseArgs (pcwd env) (argv pe) = Inr (options, ''-'' # others)"
    and m: "main env pe = (r, w')"
  shows "resolveEntry env pe ''-'' = Inr (Blob ''-'' (readStream (stdinChunks pe))) \<and>
    (''left-pad'' \<notin> set (builtinModules env) \<longrightarrow>
       scanDeps env (Blob ''-'' (requireText (CHR 0x22) ''left-pad''))
           \<lparr>deps = [], visited = [], trace = []\<rparr>
         = (None, \<lparr>deps = [''left-pad''],
                   visited = [Blob ''-'' (requireText (CHR 0x22) ''left-pad'')],
                   trace = []\<rparr>)) \<and>
    (call \<in> set (spawns (snd w')) \<longrightarrow> command call = ''npm'' \<longrightarrow>
       (\<exists>st. scanDeps env (Blob ''-'' (readStream (stdinChunks pe)))
               \<lparr>deps = [], visited = [], trace = []\<rparr> = (None, st) \<and>
             args call = installArgs (deps st))) \<and>
    (call \<in> set (spawns (snd w')) \<longrightarrow> command call = ''node'' \<longrightarrow>
       args call = ''-'' # others \<and>
       (readStream (stdinChunks pe) \<noteq> [] \<longrightarrow>
          stdinText call = Some (readStream (stdinChunks pe)))) \<and>
    (r = None \<longrightarrow> \<not> helpOpt options \<longrightarrow>
       (\<exists>c \<in> set (spawns (snd w')). command c = ''node''))"
proof -
  let ?content = "readStream (stdinChunks pe)"
  have res: "resolveEntry env pe ''-'' = Inr (Blob ''-'' ?content)"
    by (simp add: resolveEntry_def)
  have calls: "\<exists>st. scanDeps env (Blob ''-'' ?content) \<lparr>deps = [], visited = [], trace = []\<rparr>
          = (None, st) \<and>
        (call = spawnCall ''npm'' (installArgs (deps st)) (spawnOptions options)
         \<or> call = spawnCall ''node'' (''-'' # others)
              (runOptions (pcwd env) pe options (Blob ''-'' ?content)))"
    if c: "call \<in> set (spawns (snd w'))"
  proof -
    from m c obtain options' rest' entry' st' where
      p': "parseArgs (pcwd env) (argv pe) = Inr (options', rest')"
      and sc: "scanDeps env entry' \<lparr>deps = [], visited = [], trace = []\<rparr> = (None, st')"
      and re: "resolveEntry env pe (hd rest') = Inr entry'"
      and call: "call = spawnCall ''npm'' (installArgs (deps st')) (spawnOptions options')
         \<or> call = spawnCall ''node'' rest' (runOptions (pcwd env) pe options' entry')"
      by (rule main_spawns)
    from parse p' have "options' = options" "rest' = ''-'' # others" by simp_all
    with res re have "entry' = Blob ''-'' ?content" by simp
    with sc call \<open>options' = options\<close> \<open>rest' = ''-'' # others\<close> show ?thesis by blast
  qed
  have npm: "\<exists>st. scanDeps env (Blob ''-'' ?content) \<lparr>deps = [], visited = [], trace = []\<rparr>
          = (None, st) \<and> args call = installArgs (deps st)"
    if "call \<in> set (spawns (snd w'))" "command call = ''npm''"
    using calls [OF that(1)] that(2) by (auto simp: spawnCall_def)
  have node: "args call = ''-'' # others \<and>
       (?content \<noteq> [] \<longrightarrow> stdinText call = Some ?content)"
    if "call \<in> set (spawns (snd w'))" "command call = ''node''"
    using calls [OF that(1)] that(2)
    by (auto simp: spawnCall_def runOptions_def entryStdin_def truthy_def)
  have ran: "\<exists>c \<in> set (spawns (snd w')). command c = ''node''"
    if "r = None" "\<not> helpOpt options"
    using m
  proof (cases rule: main_cases)
    case (scanned options' entryFile others' entry st)
    with that(1) runScript_finished_spawns [of "pcwd env" pe options' "entryFile # others'"
        entry "deps st" "(files env, trace st)" w']
    show ?thesis by (auto simp: spawnCall_def)
  next
    case (help_shown options' rest)
    with parse that(2) show ?thesis by simp
  qed (use that(1) in simp_all)
  from res npm node ran scan_left_pad show ?thesis by blast
qed

definition stdinEnv :: scan_env where
  "stdinEnv = \<lparr>files = [([''app''], DirNode)], pcwd = [''app''], builtinModules = nodeBuiltins,
     requireResolve = loadAsFile [([''app''], DirNode)] [''app'']\<rparr>"

definition stdinRun :: process_env where
  "stdinRun = \<lparr>argv = [''-s'', ''-'', ''--verbose''],
     stdinChunks = [''require('', [CHR 0x22] @ ''left-pad'', [CHR 0x22] @ '')''],
     processEnv = [], spawnChild = npmInstalls [''app'']\<rparr>"

theorem stdin_entry_scanned_and_fed_witness:
  "resolveEntry stdinEnv stdinRun ''-'' = Inr (Blob ''-'' (requireText (CHR 0x22) ''left-pad'')) \<and>
   scanDeps stdinEnv (Blob ''-'' (requireText (CHR 0x22) ''left-pad''))
       \<lparr>deps = [], visited = [], trace = []\<rparr>
     = (None, \<lparr>deps = [''left-pad''],
               visited = [Blob ''-'' (requireText (CHR 0x22) ''left-pad'')], trace = []\<rparr>) \<and>
   fst (main stdinEnv stdinRun) = None \<and>
   spawns (snd (snd (main stdinEnv stdinRun))) =
     [\<lparr>command = ''npm'', args = [''install'', ''--no-save'', ''--no-package-lock'', ''left-pad''],
       spawnCwd = Some ''.'', spawnEnv = None, piped = False, stdinText = None\<rparr>,
      \<lparr>command = ''node'', args = [''-'', ''--verbose''], spawnCwd = None,
       spawnEnv = Some [(''NODE_PATH'', ''/app/node_modules'')], piped = True,
       stdinText = Some (requireText (CHR 0x22) ''left-pad'')\<rparr>]"
proof -
  let ?options = "\<lparr>cwd = ''.'', silent = True, clean = False, helpOpt = False\<rparr>"
  let ?node = "\<lparr>command = ''node'', args = [''-'', ''--verbose''], spawnCwd = None,
       spawnEnv = Some [(''NODE_PATH'', ''/app/node_modules'')], piped = True,
       stdinText = Some (requireText (CHR 0x22) ''left-pad'')\<rparr>"
  have parse: "parseArgs (pcwd stdinEnv) (argv stdinRun) = Inr (?options, ''-'' # [''--verbose''])"
    by code_simp
  have m: "main stdinEnv stdinRun = (fst (main stdinEnv stdinRun), snd (main stdinEnv stdinRun))"
    by simp
  have content: "readStream (stdinChunks stdinRun) = requireText (CHR 0x22) ''left-pad''"
    by code_simp
  have nob: "''left-pad'' \<notin> set (builtinModules stdinEnv)" by code_simp
  have ok: "fst (main stdinEnv stdinRun) = None" by code_simp
  have sp: "spawns (snd (snd (main stdinEnv stdinRun))) =
     [\<lparr>command = ''npm'', args = [''install'', ''--no-save'', ''--no-package-lock'', ''left-pad''],
       spawnCwd = Some ''.'', spawnEnv = None, piped = False, stdinText = None\<rparr>, ?node]"
    by code_simp
  have c: "?node \<in> set (spawns (snd (snd (main stdinEnv stdinRun))))" unfolding sp by simp
  from stdin_entry_scanned_and_fed [OF parse m, of ?node] content nob ok sp c
  show ?thesis by simp
qed

section \<open>Facts about paths\<close>

definition cleanSeg :: "string \<Rightarrow> bool" where
  "cleanSeg s = (s \<noteq> [] \<and> s \<noteq> ''.'' \<and> s \<noteq> ''..'' \<and> CHR ''/'' \<notin> set s)"

lemma normalizeSegs_append:
  "normalizeSegs stack (xs @ ys) = normalizeSegs (rev (normalizeSegs stack xs)) ys"
  by (induction xs arbitrary: stack) simp_all

lemma normalizeSegs_clean:
  "list_all cleanSeg segs \<Longrightarrow> normalizeSegs stack segs = rev stack @ segs"
  by (induction segs arbitrary: stack) (auto simp: cleanSeg_def)

lemma normalizeSegs_is_clean:
  "list_all cleanSeg stack \<Longrightarrow> list_all (\<lambda>s. CHR ''/'' \<notin> set s) segs \<Longrightarrow>
     list_all cleanSeg (normalizeSegs stack segs)"
proof (induction segs arbitrary: stack)
  case Nil
  then show ?case by simp
next
  case (Cons seg segs)
  from Cons.prems(2) have sf: "CHR ''/'' \<notin> set seg"
    and rest: "list_all (\<lambda>s. CHR ''/'' \<notin> set s) segs" by simp_all
  have tl: "list_all cleanSeg (tl stack)" using Cons.prems(1) by (cases stack) simp_all
  consider (skip) "seg = [] \<or> seg = ''.''" | (up) "seg = ''..''" | (down) "cleanSeg seg"
    using sf by (auto simp: cleanSeg_def)
  then show ?case
  proof cases
    case skip
    with Cons.IH [OF Cons.prems(1) rest] show ?thesis by auto
  next
    case up
    with Cons.IH [OF tl rest] show ?thesis by simp
  next
    case down
    then have ne: "seg \<noteq> []" "seg \<noteq> ''.''" "seg \<noteq> ''..''" by (auto simp: cleanSeg_def)
    from down Cons.prems(1) have "list_all cleanSeg (seg # stack)" by simp
    from Cons.IH [OF this rest] ne show ?thesis by simp
  qed
qed

lemma splitOn_slash_free: "list_all (\<lambda>s. c \<notin> set s) (splitOn c s)"
  by (auto simp: list_all_iff dest: splitOn_segments)

lemma resolveSegs_clean: "list_all cleanSeg (resolveSegs pwd paths)"
  unfolding resolveSegs_def
  by (rule normalizeSegs_is_clean) (simp_all add: splitOn_slash_free)

lemma splitOn_joinWith:
  "segs \<noteq> [] \<Longrightarrow> list_all (\<lambda>s. c \<notin> set s) segs \<Longrightarrow> splitOn c (joinWith [c] segs) = segs"
proof (induction segs)
  case Nil
  then show ?case by simp
next
  case (Cons s segs)
  show ?case
  proof (cases segs)
    case Nil
    with Cons.prems show ?thesis by (simp add: splitOn_no_sep)
  next
    case (Cons t ts)
    with Cons.prems Cons.IH have "splitOn c (joinWith [c] segs) = segs" by simp
    moreover have "joinWith [c] (s # segs) = s @ c # joinWith [c] segs" using Cons by simp
    ultimately show ?thesis using Cons.prems by (simp add: splitOn_append splitOn_no_sep)
  qed
qed

lemma resolveJoin_acc: "resolveJoin pwd ps acc = resolveJoin pwd ps [] @ acc"
proof (induction ps arbitrary: acc)
  case Nil
  show ?case by simp
next
  case (Cons p ps)
  from Cons [of "p @ ''/'' @ acc"] Cons [of "p @ ''/''"] Cons [of acc]
  show ?case by simp
qed

lemma resolveJoin_ends: "\<exists>s. resolveJoin pwd ps [] = s @ ''/''"
proof (induction ps)
  case Nil
  have "resolveJoin pwd [] [] = (''/'' @ joinWith ''/'' pwd) @ ''/''" by simp
  then show ?case by blast
next
  case (Cons p ps)
  then obtain s where s: "resolveJoin pwd ps [] = s @ ''/''" by blast
  show ?case
  proof (cases "p = []")
    case True
    with s show ?thesis by simp
  next
    case False
    show ?thesis
    proof (cases "hd p = CHR ''/''")
      case True
      with False have "resolveJoin pwd (p # ps) [] = p @ ''/''" by simp
      then show ?thesis by blast
    next
      case nr: False
      have "resolveJoin pwd ps (p @ ''/'') = resolveJoin pwd ps [] @ p @ ''/''"
        by (rule resolveJoin_acc)
      with False nr have "resolveJoin pwd (p # ps) [] = (resolveJoin pwd ps [] @ p) @ ''/''"
        by simp
      then show ?thesis by blast
    qed
  qed
qed

lemma resolveSegs_child:
  assumes "cleanSeg name"
  shows "resolveSegs pwd [c, name] = resolveSegs pwd [c] @ [name]"
proof -
  from assms have ne: "name \<noteq> []" by (simp add: cleanSeg_def)
  from assms have nr: "hd name \<noteq> CHR ''/''" by (cases name) (auto simp: cleanSeg_def)
  obtain s where s: "resolveJoin pwd [c] [] = s @ ''/''" using resolveJoin_ends by blast
  have "resolveJoin pwd (rev [c, name]) [] = resolveJoin pwd [c] (name @ ''/'')"
    using ne nr by simp
  also have "\<dots> = resolveJoin pwd [c] [] @ name @ ''/''" by (rule resolveJoin_acc)
  also have "\<dots> = s @ CHR ''/'' # (name @ CHR ''/'' # [])" using s by simp
  finally have j: "resolveJoin pwd (rev [c, name]) [] = s @ CHR ''/'' # (name @ CHR ''/'' # [])" .
  have sp: "splitOn CHR ''/'' (s @ CHR ''/'' # (name @ CHR ''/'' # []))
      = splitOn CHR ''/'' s @ [name] @ [[]]"
    using assms by (simp add: splitOn_append splitOn_no_sep cleanSeg_def)
  have sp1: "splitOn CHR ''/'' (s @ CHR ''/'' # []) = splitOn CHR ''/'' s @ [[]]"
    by (simp add: splitOn_append)
  have "resolveSegs pwd [c, name]
      = normalizeSegs (rev (normalizeSegs [] (splitOn CHR ''/'' s))) ([name] @ [[]])"
    unfolding resolveSegs_def j sp by (simp only: normalizeSegs_append)
  also have "\<dots> = normalizeSegs [] (splitOn CHR ''/'' s) @ [name]"
    using assms by (simp add: cleanSeg_def)
  also have "normalizeSegs [] (splitOn CHR ''/'' s) = resolveSegs pwd [c]"
    unfolding resolveSegs_def using s by (simp add: sp1 normalizeSegs_append)
  finally show ?thesis .
qed

lemma resolveSegs_pathOfSegs:
  assumes "list_all cleanSeg segs"
  shows "resolveSegs pwd [pathOfSegs segs] = segs"
proof -
  have j: "resolveJoin pwd (rev [pathOfSegs segs]) []
      = [] @ CHR ''/'' # (joinWith ''/'' segs @ CHR ''/'' # [])"
    by (simp add: pathOfSegs_def)
  have sp: "splitOn CHR ''/'' ([] @ CHR ''/'' # (joinWith ''/'' segs @ CHR ''/'' # []))
      = [[]] @ splitOn CHR ''/'' (joinWith ''/'' segs) @ [[]]"
    by (simp only: splitOn_append) simp
  show ?thesis
  proof (cases "segs = []")
    case True
    then show ?thesis unfolding resolveSegs_def j sp by simp
  next
    case False
    from assms have "list_all (\<lambda>s. CHR ''/'' \<notin> set s) segs"
      by (auto simp: list_all_iff cleanSeg_def)
    with False have "splitOn CHR ''/'' (joinWith ''/'' segs) = segs"
      by (rule splitOn_joinWith)
    then have "resolveSegs pwd [pathOfSegs segs] = normalizeSegs [] ([[]] @ segs @ [[]])"
      unfolding resolveSegs_def j sp by simp
    also have "\<dots> = normalizeSegs (rev (normalizeSegs [] segs)) [[]]"
      by (simp add: normalizeSegs_append)
    also have "\<dots> = segs" using assms by (simp add: normalizeSegs_clean)
    finally show ?thesis .
  qed
qed

lemma osKey_child:
  assumes "cleanSeg name"
  shows "osKey pwd (pathResolve pwd [c, name]) = osKey pwd c @ [name]"
proof -
  have "osKey pwd (pathResolve pwd [c, name]) = resolveSegs pwd [c, name]"
    unfolding osKey_def pathResolve_def
    by (rule resolveSegs_pathOfSegs) (rule resolveSegs_clean)
  with resolveSegs_child [OF assms] show ?thesis by (simp add: osKey_def)
qed

lemma resolve_dot_is_cwd:
  assumes "dep \<noteq> []" and "hd dep \<noteq> CHR ''/''"
  shows "pathResolve pwd [''.'', dep] = pathResolve pwd [pathOfSegs pwd, dep]"
proof -
  let ?j = "joinWith ''/'' pwd"
  have l: "resolveJoin pwd (rev [''.'', dep]) []
      = (CHR ''/'' # ?j) @ CHR ''/'' # (''.'' @ CHR ''/'' # (dep @ ''/''))"
    using assms by simp
  have r: "resolveJoin pwd (rev [pathOfSegs pwd, dep]) []
      = (CHR ''/'' # ?j) @ CHR ''/'' # (dep @ ''/'')"
    using assms by (simp add: pathOfSegs_def)
  have "splitOn CHR ''/'' ((CHR ''/'' # ?j) @ CHR ''/'' # (''.'' @ CHR ''/'' # (dep @ ''/'')))
      = splitOn CHR ''/'' (CHR ''/'' # ?j) @ [''.''] @ splitOn CHR ''/'' (dep @ ''/'')"
    by (simp only: splitOn_append) simp
  moreover have "splitOn CHR ''/'' ((CHR ''/'' # ?j) @ CHR ''/'' # (dep @ ''/''))
      = splitOn CHR ''/'' (CHR ''/'' # ?j) @ splitOn CHR ''/'' (dep @ ''/'')"
    by (simp only: splitOn_append)
  ultimately have "resolveSegs pwd [''.'', dep] = resolveSegs pwd [pathOfSegs pwd, dep]"
    unfolding resolveSegs_def l r by (simp add: normalizeSegs_append)
  then show ?thesis by (simp add: pathResolve_def)
qed

lemma pathDirname_dash: "pathDirname ''-'' = ''.''"
  by (simp add: pathDirname_def)

section \<open>Relative imports of a script on standard input\<close>

text \<open>
  Claim C9. The object built for standard input has the path \<^verbatim>\<open>-\<close>, whose directory
  name is \<^verbatim>\<open>.\<close>. So for a relative import in its text, the path handed to
  \<^verbatim>\<open>require.resolve\<close> is the specifier resolved against the current directory of the
  process (the same path as when the directory is named in full), and the scan loop
  goes on with exactly the file found there, or fails when none is found.
\<close>

theorem stdin_imports_resolve_from_cwd:
  assumes rel: "startsWith dep ''.''"
  shows "resolveEntry env pe ''-'' = Inr (Blob ''-'' (readStream (stdinChunks pe))) \<and>
     entryPath (Blob ''-'' content) = ''-'' \<and>
     pathDirname (entryPath (Blob ''-'' content)) = ''.'' \<and>
     importTarget env (Blob ''-'' content) dep
       = pathResolve (pcwd env) [pathOfSegs (pcwd env), dep] \<and>
     scanLoop env (Blob ''-'' content) (dep # rest) st =
       (case requireResolve env (pathResolve (pcwd env) [pathOfSegs (pcwd env), dep]) of
          None \<Rightarrow>
            (Some (ModuleNotFound (pathResolve (pcwd env) [pathOfSegs (pcwd env), dep])), st)
        | Some subentry \<Rightarrow>
            (case scanDeps env (File subentry) st of
               (Some err, st') \<Rightarrow> (Some err, st')
             | (None, st') \<Rightarrow> scanLoop env (Blob ''-'' content) rest st'))"
proof -
  from rel have ne: "dep \<noteq> []" and nr: "hd dep \<noteq> CHR ''/''"
    by (cases dep; simp add: startsWith_def)+
  have p: "entryPath (Blob ''-'' content) = ''-''" by (simp add: entryPath_def)
  have t: "importTarget env (Blob ''-'' content) dep
       = pathResolve (pcwd env) [pathOfSegs (pcwd env), dep]"
    unfolding importTarget_def p pathDirname_dash using ne nr by (rule resolve_dot_is_cwd)
  have l: "scanLoop env (Blob ''-'' content) (dep # rest) st =
       (case requireResolve env (importTarget env (Blob ''-'' content) dep) of
          None \<Rightarrow> (Some (ModuleNotFound (importTarget env (Blob ''-'' content) dep)), st)
        | Some subentry \<Rightarrow>
            (case scanDeps env (File subentry) st of
               (Some err, st') \<Rightarrow> (Some err, st')
             | (None, st') \<Rightarrow> scanLoop env (Blob ''-'' content) rest st'))"
    using rel by simp
  show ?thesis
    unfolding l t using p by (simp add: resolveEntry_def pathDirname_dash)
qed

definition pipedFiles :: fs where
  "pipedFiles =
     [([''home''], DirNode), ([''home'', ''u''], DirNode),
      ([''home'', ''u'', ''lib''], DirNode),
      ([''home'', ''u'', ''lib'', ''util.js''],
         FileNode (''module.exports = '' @ requireText (CHR 0x27) ''chalk'')),
      ([''srv''], DirNode),
      ([''srv'', ''lib''], DirNode),
      ([''srv'', ''lib'', ''util.js''],
         FileNode (''module.exports = '' @ requireText (CHR 0x27) ''lodash''))]"

definition pipedEnv :: scan_env where
  "pipedEnv = \<lparr>files = pipedFiles, pcwd = [''home'', ''u''], builtinModules = nodeBuiltins,
     requireResolve = loadAsFile pipedFiles [''home'', ''u'']\<rparr>"

definition pipedRun :: process_env where
  "pipedRun = \<lparr>argv = [''-''], stdinChunks = [requireText (CHR 0x22) ''./lib/util''],
     processEnv = [], spawnChild = npmInstalls [''home'', ''u'']\<rparr>"

theorem stdin_imports_resolve_from_cwd_witness:
  "importTarget pipedEnv (Blob ''-'' (requireText (CHR 0x22) ''./lib/util'')) ''./lib/util''
     = ''/home/u/lib/util'' \<and>
   scanLoop pipedEnv (Blob ''-'' (requireText (CHR 0x22) ''./lib/util'')) [''./lib/util'']
       \<lparr>deps = [], visited = [Blob ''-'' (requireText (CHR 0x22) ''./lib/util'')], trace = []\<rparr>
     = (None, \<lparr>deps = [''chalk''],
               visited = [Blob ''-'' (requireText (CHR 0x22) ''./lib/util''),
                          File [''home'', ''u'', ''lib'', ''util.js'']],
               trace = [FsReadFile [''home'', ''u'', ''lib'', ''util.js'']]\<rparr>)"
proof -
  let ?content = "requireText (CHR 0x22) ''./lib/util''"
  let ?st = "\<lparr>deps = [], visited = [Blob ''-'' ?content], trace = []\<rparr>"
  let ?st' = "\<lparr>deps = [''chalk''],
               visited = [Blob ''-'' ?content, File [''home'', ''u'', ''lib'', ''util.js'']],
               trace = [FsReadFile [''home'', ''u'', ''lib'', ''util.js'']]\<rparr>"
  have rel: "startsWith ''./lib/util'' ''.''" by (simp add: startsWith_def)
  have pr: "pathResolve (pcwd pipedEnv) [pathOfSegs (pcwd pipedEnv), ''./lib/util'']
      = ''/home/u/lib/util''"
    by code_simp
  have rr: "requireResolve pipedEnv ''/home/u/lib/util'' = Some [''home'', ''u'', ''lib'', ''util.js'']"
    by code_simp
  have sub: "scanDeps pipedEnv (File [''home'', ''u'', ''lib'', ''util.js'']) ?st = (None, ?st')"
    by code_simp
  note inst = stdin_imports_resolve_from_cwd [OF rel, of pipedEnv pipedRun ?content "[]" ?st]
  from inst have t: "importTarget pipedEnv (Blob ''-'' ?content) ''./lib/util''
      = pathResolve (pcwd pipedEnv) [pathOfSegs (pcwd pipedEnv), ''./lib/util'']"
    by (elim conjE)
  from inst have l: "scanLoop pipedEnv (Blob ''-'' ?content) [''./lib/util''] ?st =
       (case requireResolve pipedEnv
               (pathResolve (pcwd pipedEnv) [pathOfSegs (pcwd pipedEnv), ''./lib/util'']) of
          None \<Rightarrow>
            (Some (ModuleNotFound
               (pathResolve (pcwd pipedEnv) [pathOfSegs (pcwd pipedEnv), ''./lib/util''])), ?st)
        | Some subentry \<Rightarrow>
            (case scanDeps pipedEnv (File subentry) ?st of
               (Some err, st') \<Rightarrow> (Some err, st')
             | (None, st') \<Rightarrow> scanLoop pipedEnv (Blob ''-'' ?content) [] st'))"
    by (elim conjE)
  have "scanLoop pipedEnv (Blob ''-'' ?content) [''./lib/util''] ?st = (None, ?st')"
    by (subst l) (simp only: pr rr sub option.case prod.case scanLoop.simps)
  with t pr show ?thesis by simp
qed

section \<open>A module imported by two scripts\<close>

fun filesOf :: "entry list \<Rightarrow> string list list" where
  "filesOf [] = []"
| "filesOf (File key # es) = key # filesOf es"
| "filesOf (e # es) = filesOf es"

lemma filesOf_append [simp]: "filesOf (a @ b) = filesOf a @ filesOf b"
  by (induction a rule: filesOf.induct) simp_all

lemma set_filesOf: "set (filesOf es) = {key. File key \<in> set es}"
  by (induction es rule: filesOf.induct) auto

lemma distinct_filesOf: "distinct es \<Longrightarrow> distinct (filesOf es)"
  by (induction es rule: filesOf.induct) (auto simp: set_filesOf)

lemma reads_follow_visits:
  "scanDeps env entry st = (r, st') \<Longrightarrow>
     \<exists>vs. visited st' = visited st @ vs \<and>
          readsOf (trace st') = readsOf (trace st) @ filesOf vs \<and>
          (distinct (visited st) \<longrightarrow> distinct (visited st'))"
  "scanLoop env entry ds st = (r, st') \<Longrightarrow>
     \<exists>vs. visited st' = visited st @ vs \<and>
          readsOf (trace st') = readsOf (trace st) @ filesOf vs \<and>
          (distinct (visited st) \<longrightarrow> distinct (visited st'))"
  by (rule scan_rel [where R = "\<lambda>a b. \<exists>vs. visited b = visited a @ vs \<and>
        readsOf (trace b) = readsOf (trace a) @ filesOf vs \<and>
        (distinct (visited a) \<longrightarrow> distinct (visited b))" and env = env];
      auto simp: setAdd_def)+

lemma count_list_distinct: "distinct xs \<Longrightarrow> x \<in> set xs \<Longrightarrow> count_list xs x = 1"
  by (induction xs) auto

lemma read_exactly_once:
  assumes "scanDeps env entry \<lparr>deps = [], visited = [], trace = []\<rparr> = (r, st')"
    and "File u \<in> set (visited st')"
  shows "count_list (readsOf (trace st')) u = 1"
proof -
  from reads_follow_visits(1) [OF assms(1)]
  have rd: "readsOf (trace st') = filesOf (visited st')" and d: "distinct (visited st')"
    by auto
  from d have "distinct (filesOf (visited st'))" by (rule distinct_filesOf)
  moreover from assms(2) have "u \<in> set (filesOf (visited st'))" by (simp add: set_filesOf)
  ultimately show ?thesis unfolding rd by (rule count_list_distinct)
qed

lemma revisit_warns:
  "File u \<in> set (visited st) \<Longrightarrow>
     scanDeps env (File u) st = (None, st\<lparr>trace := trace st @ [ConsoleWarn (File u)]\<rparr>)"
  by (simp add: scanDeps.simps setHas_def)

definition diamondFiles :: fs where
  "diamondFiles =
     [([''app''], DirNode),
      ([''app'', ''main.js''],
         FileNode (requireText (CHR 0x27) ''./a'' @ '';'' @ requireText (CHR 0x27) ''./b'' @ '';'')),
      ([''app'', ''a.js''], FileNode (''const u = '' @ requireText (CHR 0x27) ''./util'' @ '';'')),
      ([''app'', ''b.js''], FileNode (''const u = '' @ requireText (CHR 0x27) ''./util'' @ '';'')),
      ([''app'', ''util.js''],
         FileNode (''module.exports = '' @ requireText (CHR 0x27) ''lodash'' @ '';''))]"

definition diamondEnv :: scan_env where
  "diamondEnv = \<lparr>files = diamondFiles, pcwd = [''app''], builtinModules = nodeBuiltins,
     requireResolve = loadAsFile diamondFiles [''app'']\<rparr>"

text \<open>
  Claim C2, as stated, fails. \<open>main.js\<close> requires \<open>./a\<close> and \<open>./b\<close>, and both require
  \<open>./util\<close>: a diamond without any cycle. The scan reads \<open>util.js\<close> once, and when \<open>b.js\<close>
  imports it again the scan prints the warning for it: \<open>visited\<close> never shrinks, so the
  test of line 26 cannot tell a unit that is still being scanned from one whose scan
  has returned.
\<close>

theorem shared_module_warns_counterexample:
  "scanDeps diamondEnv (File [''app'', ''main.js'']) \<lparr>deps = [], visited = [], trace = []\<rparr>
     = (None,
        \<lparr>deps = [''lodash''],
         visited = [File [''app'', ''main.js''], File [''app'', ''a.js''],
                    File [''app'', ''util.js''], File [''app'', ''b.js'']],
         trace = [FsReadFile [''app'', ''main.js''], FsReadFile [''app'', ''a.js''],
                  FsReadFile [''app'', ''util.js''], FsReadFile [''app'', ''b.js''],
                  ConsoleWarn (File [''app'', ''util.js''])]\<rparr>) \<and>
   warnings (trace (snd (scanDeps diamondEnv (File [''app'', ''main.js''])
       \<lparr>deps = [], visited = [], trace = []\<rparr>))) = [File [''app'', ''util.js'']]"
  by code_simp

text \<open>
  Claim C2, amended. In a scan that starts with empty sets, every visited file is read
  exactly once. Once a scan of the shared module has returned, the module is in
  \<open>visited\<close>, and no scan ever removes a member of \<open>visited\<close>. From then on a scan
  of the module returns at once with the warning and without reading anything, so a
  script whose next import resolves to the module gets the warning and goes on with its
  remaining imports: the warning is printed at every arrival at a visited unit, whether
  or not that unit is still being scanned.
\<close>

theorem shared_module_read_once_warned_again:
  "(scanDeps env entry \<lparr>deps = [], visited = [], trace = []\<rparr> = (r, st') \<longrightarrow>
      File u \<in> set (visited st') \<longrightarrow> count_list (readsOf (trace st')) u = 1) \<and>
   (scanDeps env (File u) st = (r1, st1) \<longrightarrow> File u \<in> set (visited st1)) \<and>
   (scanDeps env e sa = (ra, sa') \<longrightarrow> set (visited sa) \<subseteq> set (visited sa')) \<and>
   (scanLoop env e ds sb = (rb, sb') \<longrightarrow> set (visited sb) \<subseteq> set (visited sb')) \<and>
   (File u \<in> set (visited st2) \<longrightarrow>
      scanDeps env (File u) st2 = (None, st2\<lparr>trace := trace st2 @ [ConsoleWarn (File u)]\<rparr>)) \<and>
   (File u \<in> set (visited st2) \<longrightarrow> startsWith dep ''.'' \<longrightarrow>
    requireResolve env (importTarget env importer dep) = Some u \<longrightarrow>
      scanLoop env importer (dep # rest) st2
        = scanLoop env importer rest (st2\<lparr>trace := trace st2 @ [ConsoleWarn (File u)]\<rparr>))"
proof (intro conjI impI)
  assume "scanDeps env entry \<lparr>deps = [], visited = [], trace = []\<rparr> = (r, st')"
    and "File u \<in> set (visited st')"
  then show "count_list (readsOf (trace st')) u = 1" by (rule read_exactly_once)
next
  assume "scanDeps env (File u) st = (r1, st1)"
  then show "File u \<in> set (visited st1)" by (rule entry_visited)
next
  assume "scanDeps env e sa = (ra, sa')"
  then show "set (visited sa) \<subseteq> set (visited sa')" by (rule visited_grows(1))
next
  assume "scanLoop env e ds sb = (rb, sb')"
  then show "set (visited sb) \<subseteq> set (visited sb')" by (rule visited_grows(2))
next
  assume "File u \<in> set (visited st2)"
  then show "scanDeps env (File u) st2
      = (None, st2\<lparr>trace := trace st2 @ [ConsoleWarn (File u)]\<rparr>)"
    by (rule revisit_warns)
next
  assume v: "File u \<in> set (visited st2)" and rel: "startsWith dep ''.''"
    and res: "requireResolve env (importTarget env importer dep) = Some u"
  from revisit_warns [OF v, of env] rel res
  show "scanLoop env importer (dep # rest) st2
        = scanLoop env importer rest (st2\<lparr>trace := trace st2 @ [ConsoleWarn (File u)]\<rparr>)"
    by simp
qed

theorem shared_module_read_once_warned_again_witness:
  "count_list
     [[''app'', ''main.js''], [''app'', ''a.js''], [''app'', ''util.js''], [''app'', ''b.js'']]
     [''app'', ''util.js''] = 1 \<and>
   scanLoop diamondEnv (File [''app'', ''b.js'']) [''./util'']
     \<lparr>deps = [''lodash''],
      visited = [File [''app'', ''main.js''], File [''app'', ''a.js''],
                 File [''app'', ''util.js''], File [''app'', ''b.js'']],
      trace = [FsReadFile [''app'', ''main.js''], FsReadFile [''app'', ''a.js''],
               FsReadFile [''app'', ''util.js''], FsReadFile [''app'', ''b.js'']]\<rparr>
   = (None,
      \<lparr>deps = [''lodash''],
       visited = [File [''app'', ''main.js''], File [''app'', ''a.js''],
                  File [''app'', ''util.js''], File [''app'', ''b.js'']],
       trace = [FsReadFile [''app'', ''main.js''], FsReadFile [''app'', ''a.js''],
                FsReadFile [''app'', ''util.js''], FsReadFile [''app'', ''b.js''],
                ConsoleWarn (File [''app'', ''util.js''])]\<rparr>)"
proof -
  let ?m = "[''app'', ''main.js'']" and ?a = "[''app'', ''a.js'']"
  let ?u = "[''app'', ''util.js'']" and ?b = "[''app'', ''b.js'']"
  let ?st2 = "\<lparr>deps = [''lodash''], visited = [File ?m, File ?a, File ?u, File ?b],
      trace = [FsReadFile ?m, FsReadFile ?a, FsReadFile ?u, FsReadFile ?b]\<rparr>"
  let ?fin = "\<lparr>deps = [''lodash''], visited = [File ?m, File ?a, File ?u, File ?b],
      trace = [FsReadFile ?m, FsReadFile ?a, FsReadFile ?u, FsReadFile ?b,
               ConsoleWarn (File ?u)]\<rparr>"
  have whole: "scanDeps diamondEnv (File ?m) \<lparr>deps = [], visited = [], trace = []\<rparr>
      = (None, ?fin)"
    by code_simp
  have vis: "File ?u \<in> set (visited ?fin)" and vis2: "File ?u \<in> set (visited ?st2)"
    by simp_all
  have rel: "startsWith ''./util'' ''.''" by (simp add: startsWith_def)
  have res: "requireResolve diamondEnv (importTarget diamondEnv (File ?b) ''./util'') = Some ?u"
    by code_simp
  note inst = shared_module_read_once_warned_again [of diamondEnv "File ?m" None ?fin ?u
      _ _ _ _ _ _ _ _ _ _ _ ?st2 "''./util''" "File ?b" "[]"]
  from inst whole vis have once: "count_list (readsOf (trace ?fin)) ?u = 1" by blast
  from inst vis2 rel res have again: "scanLoop diamondEnv (File ?b) (''./util'' # []) ?st2
      = scanLoop diamondEnv (File ?b) [] (?st2\<lparr>trace := trace ?st2 @ [ConsoleWarn (File ?u)]\<rparr>)"
    by blast
  from once have "count_list [?m, ?a, ?u, ?b] ?u = 1" by simp
  moreover from again have "scanLoop diamondEnv (File ?b) [''./util''] ?st2 = (None, ?fin)"
    by simp
  ultimately show ?thesis by simp
qed

section \<open>Artifacts and their removal\<close>

text \<open>
  In a file system that is a tree, whatever exists has all its ancestors. The artifacts
  an invocation owns are those of the working directory, the manifest and the modules
  directory that do not exist when it starts, in the order of their removal.
\<close>

definition treeLike :: "fs \<Rightarrow> bool" where
  "treeLike fls = list_all (\<lambda>k. list_all (\<lambda>a. fsLookup fls a \<noteq> None) (prefixes k)) (map fst fls)"

definition ownedAtStart :: "fs \<Rightarrow> string list \<Rightarrow> cli_options \<Rightarrow> string list list" where
  "ownedAtStart fls pwd options =
     (if fsLookup fls (osKey pwd (modulesPath pwd options)) = None
      then [osKey pwd (modulesPath pwd options)] else []) @
     (if fsLookup fls (osKey pwd (pkgFile pwd options)) = None
      then [osKey pwd (pkgFile pwd options)] else []) @
     (if cwd options \<noteq> [] \<and> fsLookup fls (osKey pwd (cwd options)) = None
      then [osKey pwd (cwd options)] else [])"

lemma treeLike_ancestor:
  assumes "treeLike fls" and "fsLookup fls k \<noteq> None" and "prefix a k"
  shows "fsLookup fls a \<noteq> None"
proof (cases "k = []")
  case True
  with assms(3) show ?thesis by (simp add: fsLookup_def)
next
  case False
  with assms(2) obtain n where "map_of fls k = Some n" by (auto simp: fsLookup_def)
  then have "k \<in> set (map fst fls)" by (auto dest: map_of_SomeD intro: rev_image_eqI)
  with assms(1) have "list_all (\<lambda>a. fsLookup fls a \<noteq> None) (prefixes k)"
    unfolding treeLike_def list_all_iff by blast
  with assms(3) show ?thesis by (simp add: list_all_iff)
qed

lemma fsLookup_fsPut: "fsLookup (fsPut fls key n) k = (if k = key \<and> k \<noteq> [] then Some n else fsLookup fls k)"
  by (induction fls) (auto simp: fsLookup_def fsPut_def)

lemma fsLookup_rmRecursive:
  "\<not> prefix key k \<Longrightarrow> fsLookup (rmRecursive fls key) k = fsLookup fls k"
  by (induction fls) (auto simp: fsLookup_def rmRecursive_def)

lemma rmRecursive_absent:
  "list_all (\<lambda>(k, n). \<not> prefix key k) fls \<Longrightarrow> rmRecursive fls key = fls"
  by (induction fls) (auto simp: rmRecursive_def)

lemma mkdir_fold_frame:
  "k \<notin> set ps \<Longrightarrow>
     fsLookup (foldl (\<lambda>acc a. if fsLookup acc a = None then fsPut acc a DirNode else acc) fls ps) k
       = fsLookup fls k"
  by (induction ps arbitrary: fls) (auto simp: fsLookup_fsPut)

lemma mkdirRecursive_frame:
  "mkdirRecursive fls key = Some fls' \<Longrightarrow> \<not> prefix k key \<Longrightarrow> fsLookup fls' k = fsLookup fls k"
  by (auto simp: mkdirRecursive_def mkdir_fold_frame split: if_splits)

lemma writeFile_frame:
  "writeFile fls key content = Some fls' \<Longrightarrow> k \<noteq> key \<Longrightarrow> fsLookup fls' k = fsLookup fls k"
  by (auto simp: writeFile_def fsLookup_fsPut split: if_splits)

lemma ensureCwd_flag:
  assumes "ensureCwd pwd options w = (None, c, w1)"
  shows "c = (cwd options \<noteq> [] \<and> fsLookup (fst w) (osKey pwd (cwd options)) = None)"
    and "\<not> prefix k (osKey pwd (cwd options)) \<Longrightarrow> fsLookup (fst w1) k = fsLookup (fst w) k"
  using assms
  by (auto simp: ensureCwd_def exists_def Let_def mkdirRecursive_frame
      split: if_splits option.splits)

lemma ensurePkg_flag:
  assumes "ensurePkg pwd options w = (None, c, w1)"
  shows "c = (fsLookup (fst w) (osKey pwd (pkgFile pwd options)) = None)"
    and "k \<noteq> osKey pwd (pkgFile pwd options) \<Longrightarrow> fsLookup (fst w1) k = fsLookup (fst w) k"
  using assms
  by (auto simp: ensurePkg_def exists_def Let_def writeFile_frame
      split: if_splits option.splits)

lemma cleanSeg_names: "cleanSeg ''package.json''" "cleanSeg ''node_modules''"
  by (simp_all add: cleanSeg_def)

lemma pkgKey: "osKey pwd (pkgFile pwd options) = osKey pwd (cwd options) @ [''package.json'']"
  unfolding pkgFile_def by (rule osKey_child) (rule cleanSeg_names)

lemma modulesKey: "osKey pwd (modulesPath pwd options) = osKey pwd (cwd options) @ [''node_modules'']"
  unfolding modulesPath_def by (rule osKey_child) (rule cleanSeg_names)

lemma runScript_removals:
  assumes "runScript pwd pe options rest entry ds w = (r, w')"
  shows "removals (snd w') = removals (snd w) @
     (if r = None \<and> clean options then ownedAtStart (fst w) pwd options else [])"
  using assms
proof (cases rule: runScript_cases)
  case (mkdir_failed err f)
  with ensureCwd_trace [OF mkdir_failed(1)] show ?thesis by simp
next
  case (write_failed cleanCwd w1 err f)
  with ensureCwd_trace [OF write_failed(1)] ensurePkg_trace [OF write_failed(2)]
  show ?thesis by simp
next
  case (install_failed cleanCwd w1 cleanPkg w2 err)
  with ensureCwd_trace [OF install_failed(1)] ensurePkg_trace [OF install_failed(2)]
    spawnAsync_trace [OF install_failed(3) [unfolded installDeps_def]]
  show ?thesis by simp
next
  case (run_failed cleanCwd w1 cleanPkg w2 w3 err)
  with ensureCwd_trace [OF run_failed(1)] ensurePkg_trace [OF run_failed(2)]
    spawnAsync_trace [OF run_failed(3) [unfolded installDeps_def]]
    spawnAsync_trace [OF run_failed(4)]
  show ?thesis by simp
next
  case (finished cleanCwd w1 cleanPkg w2 w3 w4)
  let ?c = "osKey pwd (cwd options)"
  have tr: "removals (snd w4) = removals (snd w)"
    using ensureCwd_trace [OF finished(1)] ensurePkg_trace [OF finished(2)]
      spawnAsync_trace [OF finished(3) [unfolded installDeps_def]]
      spawnAsync_trace [OF finished(4)]
    by simp
  have c: "cleanCwd = (cwd options \<noteq> [] \<and> fsLookup (fst w) ?c = None)"
    by (rule ensureCwd_flag(1) [OF finished(1)])
  have "\<not> prefix (?c @ [''package.json'']) ?c" by (simp add: prefix_def)
  then have p1: "fsLookup (fst w1) (osKey pwd (pkgFile pwd options))
      = fsLookup (fst w) (osKey pwd (pkgFile pwd options))"
    unfolding pkgKey by (rule ensureCwd_flag(2) [OF finished(1)])
  have p: "cleanPkg = (fsLookup (fst w) (osKey pwd (pkgFile pwd options)) = None)"
    using ensurePkg_flag(1) [OF finished(2)] p1 by simp
  have "\<not> prefix (?c @ [''node_modules'']) ?c" by (simp add: prefix_def)
  then have m1: "fsLookup (fst w1) (osKey pwd (modulesPath pwd options))
      = fsLookup (fst w) (osKey pwd (modulesPath pwd options))"
    unfolding modulesKey by (rule ensureCwd_flag(2) [OF finished(1)])
  have "osKey pwd (modulesPath pwd options) \<noteq> osKey pwd (pkgFile pwd options)"
    by (simp add: pkgKey modulesKey)
  from ensurePkg_flag(2) [OF finished(2) this] m1
  have m: "(\<not> exists (fst w2) pwd (modulesPath pwd options))
      = (fsLookup (fst w) (osKey pwd (modulesPath pwd options)) = None)"
    by (simp add: exists_def)
  show ?thesis
    unfolding finished(5,6) using tr
    by (simp add: cleanArtifacts_trace ownedKeys_def ownedAtStart_def c p m)
qed

lemma main_removals:
  assumes "parseArgs (pcwd env) (argv pe) = Inr (options, rest)" and "main env pe = (r, w')"
  shows "removals (snd w') =
     (if r = None \<and> \<not> helpOpt options \<and> clean options
      then ownedAtStart (files env) (pcwd env) options else [])"
  using assms(2)
proof (cases rule: main_cases)
  case (scanned options' entryFile others entry st)
  with assms(1) have o: "options' = options" by simp
  from runScript_removals [OF scanned(6)] scan_trace_quiet(1) [OF scanned(5)] scanned(2) o
  show ?thesis by simp
next
  case (help_shown options' rest')
  with assms(1) show ?thesis by simp
next
  case (scan_failed options' entryFile others entry err st)
  with scan_trace_quiet(1) [OF scan_failed(5)] show ?thesis by simp
qed simp_all

definition projectFiles :: fs where
  "projectFiles =
     [([''app''], DirNode),
      ([''app'', ''package.json''], FileNode ''{ \"name\": \"app\" }''),
      ([''app'', ''main.js''], FileNode (requireText (CHR 0x27) ''left-pad'' @ '';''))]"

definition projectEnv :: scan_env where
  "projectEnv = \<lparr>files = projectFiles, pcwd = [''app''], builtinModules = nodeBuiltins,
     requireResolve = loadAsFile projectFiles [''app'']\<rparr>"

definition cleanRun :: process_env where
  "cleanRun = \<lparr>argv = [''-c'', ''main.js''], stdinChunks = [], processEnv = [],
     spawnChild = npmInstalls [''app'']\<rparr>"

definition freshDirRun :: process_env where
  "freshDirRun = \<lparr>argv = [''-cC'', ''/tmp/w'', ''main.js''], stdinChunks = [], processEnv = [],
     spawnChild = npmInstalls [''app'']\<rparr>"

definition npmFails :: "spawn_call \<Rightarrow> fs \<Rightarrow> child_exit \<times> fs" where
  "npmFails call fls =
     (if command call = ''npm'' then (ChildClose (Some 1) None, fls)
      else (ChildClose (Some 0) None, fls))"

definition failedInstallRun :: process_env where
  "failedInstallRun = \<lparr>argv = [''-cC'', ''/tmp/w'', ''main.js''], stdinChunks = [],
     processEnv = [], spawnChild = npmFails\<rparr>"

definition npmKilled :: "spawn_call \<Rightarrow> fs \<Rightarrow> child_exit \<times> fs" where
  "npmKilled call fls =
     (if command call = ''npm'' then (ChildClose None (Some ''SIGTERM''), fls)
      else (ChildClose (Some 0) None, fls))"

definition killedInstallRun :: process_env where
  "killedInstallRun = \<lparr>argv = [''main.js''], stdinChunks = [], processEnv = [],
     spawnChild = npmKilled\<rparr>"

text \<open>
  Claim C5. Let the file system an invocation starts in be a tree. Every removal the
  invocation makes happens with the clean option set, and is the removal of the working
  directory, of the manifest or of the modules directory, one that did not exist when
  the invocation started. Such a removal does not reach any of the three that did exist:
  that artifact is not at or below the removed path, so the recursive removal leaves it
  as it is in any file system.
\<close>

theorem cleanup_removes_only_new_artifacts:
  assumes parse: "parseArgs (pcwd env) (argv pe) = Inr (options, rest)"
    and m: "main env pe = (r, w')"
    and tree: "treeLike (files env)"
    and rm: "k \<in> set (removals (snd w'))"
  shows "clean options \<and>
     k \<in> {osKey (pcwd env) (cwd options), osKey (pcwd env) (pkgFile (pcwd env) options),
          osKey (pcwd env) (modulesPath (pcwd env) options)} \<and>
     fsLookup (files env) k = None \<and>
     (a \<in> {osKey (pcwd env) (cwd options), osKey (pcwd env) (pkgFile (pcwd env) options),
           osKey (pcwd env) (modulesPath (pcwd env) options)} \<longrightarrow>
      fsLookup (files env) a \<noteq> None \<longrightarrow>
        \<not> prefix k a \<and> fsLookup (rmRecursive f k) a = fsLookup f a)"
proof -
  from main_removals [OF parse m] rm
  have c: "clean options" and own: "k \<in> set (ownedAtStart (files env) (pcwd env) options)"
    by (auto split: if_splits)
  from own have k3: "k \<in> {osKey (pcwd env) (cwd options),
      osKey (pcwd env) (pkgFile (pcwd env) options),
      osKey (pcwd env) (modulesPath (pcwd env) options)}"
    and absent: "fsLookup (files env) k = None"
    by (auto simp: ownedAtStart_def split: if_splits)
  have "\<not> prefix k a \<and> fsLookup (rmRecursive f k) a = fsLookup f a"
    if "fsLookup (files env) a \<noteq> None"
  proof -
    from treeLike_ancestor [OF tree that] absent have "\<not> prefix k a" by blast
    then show ?thesis by (simp add: fsLookup_rmRecursive)
  qed
  with c k3 absent show ?thesis by blast
qed

theorem cleanup_removes_only_new_artifacts_witness:
  "removals (snd (snd (main projectEnv cleanRun))) = [[''app'', ''node_modules'']] \<and>
   treeLike (files projectEnv) \<and>
   clean \<lparr>cwd = ''.'', silent = False, clean = True, helpOpt = False\<rparr> \<and>
   fsLookup (files projectEnv) [''app'', ''node_modules''] = None \<and>
   fsLookup (files projectEnv) [''app'', ''package.json''] \<noteq> None \<and>
   \<not> prefix [''app'', ''node_modules''] [''app'', ''package.json''] \<and>
   fsLookup (rmRecursive (fsPut projectFiles [''app'', ''node_modules''] DirNode)
       [''app'', ''node_modules'']) [''app'', ''package.json'']
     = fsLookup (fsPut projectFiles [''app'', ''node_modules''] DirNode) [''app'', ''package.json'']"
proof -
  let ?options = "\<lparr>cwd = ''.'', silent = False, clean = True, helpOpt = False\<rparr>"
  let ?k = "[''app'', ''node_modules'']" and ?a = "[''app'', ''package.json'']"
  have parse: "parseArgs (pcwd projectEnv) (argv cleanRun) = Inr (?options, [''main.js''])"
    by code_simp
  have m: "main projectEnv cleanRun
      = (fst (main projectEnv cleanRun), snd (main projectEnv cleanRun))" by simp
  have tree: "treeLike (files projectEnv)" by code_simp
  have rms: "removals (snd (snd (main projectEnv cleanRun))) = [?k]" by code_simp
  then have rm: "?k \<in> set (removals (snd (snd (main projectEnv cleanRun))))" by simp
  have a: "?a \<in> {osKey (pcwd projectEnv) (cwd ?options),
      osKey (pcwd projectEnv) (pkgFile (pcwd projectEnv) ?options),
      osKey (pcwd projectEnv) (modulesPath (pcwd projectEnv) ?options)}" by code_simp
  have ex: "fsLookup (files projectEnv) ?a \<noteq> None" by code_simp
  from cleanup_removes_only_new_artifacts [OF parse m tree rm, of ?a
      "fsPut projectFiles [''app'', ''node_modules''] DirNode"] a ex
  have "clean ?options \<and> fsLookup (files projectEnv) ?k = None \<and> \<not> prefix ?k ?a \<and>
      fsLookup (rmRecursive (fsPut projectFiles [''app'', ''node_modules''] DirNode) ?k) ?a
        = fsLookup (fsPut projectFiles [''app'', ''node_modules''] DirNode) ?a"
    by blast
  with rms tree ex show ?thesis by blast
qed

text \<open>
  Claim C6, as stated, fails. With \<^verbatim>\<open>-cC /tmp/w\<close> the invocation creates \<^verbatim>\<open>/tmp/w\<close>
  and the manifest in it, so it owns both; the installer then exits with code 1, the
  invocation rejects with that failure, and no removal is attempted: the directory and
  the manifest stay.
\<close>

theorem cleanup_skipped_after_failed_install_counterexample:
  "parseArgs (pcwd projectEnv) (argv failedInstallRun)
     = Inr (\<lparr>cwd = ''/tmp/w'', silent = False, clean = True, helpOpt = False\<rparr>, [''main.js'']) \<and>
   fsLookup (files projectEnv) [''tmp'', ''w''] = None \<and>
   fst (main projectEnv failedInstallRun) = Some (ChildFailed 1 None) \<and>
   removals (snd (snd (main projectEnv failedInstallRun))) = [] \<and>
   fsLookup (fst (snd (main projectEnv failedInstallRun))) [''tmp'', ''w''] = Some DirNode \<and>
   fsLookup (fst (snd (main projectEnv failedInstallRun))) [''tmp'', ''w'', ''package.json'']
     = Some (FileNode ''{}'')"
  by code_simp

text \<open>
  Claim C6, amended. An invocation that fails, at whatever step, attempts no removal. An
  invocation that succeeds (installer and runner included) with the clean option set
  attempts the removal of exactly the artifacts it owns, in the order modules directory,
  manifest, working directory. The removal of a path that does not exist, with nothing
  below it, changes nothing and is no error.
\<close>

theorem cleanup_only_after_success:
  assumes parse: "parseArgs (pcwd env) (argv pe) = Inr (options, rest)"
    and m: "main env pe = (r, w')"
  shows "(r \<noteq> None \<longrightarrow> removals (snd w') = []) \<and>
     (r = None \<longrightarrow> \<not> helpOpt options \<longrightarrow> clean options \<longrightarrow>
        removals (snd w') = ownedAtStart (files env) (pcwd env) options) \<and>
     (list_all (\<lambda>(a, n). \<not> prefix k a) f \<longrightarrow> rmRecursive f k = f)"
  using main_removals [OF parse m] by (auto simp: rmRecursive_absent)

theorem cleanup_only_after_success_witness:
  "fst (main projectEnv freshDirRun) = None \<and>
   removals (snd (snd (main projectEnv freshDirRun)))
     = [[''tmp'', ''w'', ''node_modules''], [''tmp'', ''w'', ''package.json''], [''tmp'', ''w'']] \<and>
   ownedAtStart (files projectEnv) (pcwd projectEnv)
       \<lparr>cwd = ''/tmp/w'', silent = False, clean = True, helpOpt = False\<rparr>
     = [[''tmp'', ''w'', ''node_modules''], [''tmp'', ''w'', ''package.json''], [''tmp'', ''w'']] \<and>
   rmRecursive projectFiles [''tmp'', ''w''] = projectFiles"
proof -
  let ?options = "\<lparr>cwd = ''/tmp/w'', silent = False, clean = True, helpOpt = False\<rparr>"
  have parse: "parseArgs (pcwd projectEnv) (argv freshDirRun) = Inr (?options, [''main.js''])"
    by code_simp
  have m: "main projectEnv freshDirRun
      = (fst (main projectEnv freshDirRun), snd (main projectEnv freshDirRun))" by simp
  have ok: "fst (main projectEnv freshDirRun) = None" by code_simp
  have own: "ownedAtStart (files projectEnv) (pcwd projectEnv) ?options
     = [[''tmp'', ''w'', ''node_modules''], [''tmp'', ''w'', ''package.json''], [''tmp'', ''w'']]"
    by code_simp
  have absent: "list_all (\<lambda>(a, n). \<not> prefix [''tmp'', ''w''] a) projectFiles" by code_simp
  from cleanup_only_after_success [OF parse m, of "[''tmp'', ''w'']" projectFiles]
    ok own absent
  show ?thesis by simp
qed

section \<open>An installer ended by a signal\<close>

lemma nonzero_exit_rejects:
  "n \<noteq> 0 \<Longrightarrow> settle (ChildClose (Some n) signal) = Some (ChildFailed n signal)"
  by (simp add: settle_def)

lemma signal_exit_resolves: "settle (ChildClose None (Some signal)) = None"
  by (simp add: settle_def)

lemma installDeps_ignores_signal:
  "fst (spawnChild pe (spawnCall ''npm'' (installArgs ds) (spawnOptions options)) (fst w))
     = ChildClose None (Some signal) \<Longrightarrow>
   fst (installDeps pe ds options w) = None"
  by (auto simp: installDeps_def spawnAsync_def Let_def signal_exit_resolves split: prod.splits)

text \<open>
  Claim C7 at the input where it fails. The installer is ended by \<^verbatim>\<open>SIGTERM\<close>, so its
  \<^verbatim>\<open>close\<close> event carries the code \<^verbatim>\<open>null\<close> and the signal. The handler tests the
  code alone, the promise resolves, and the invocation goes on: it starts the runner and
  succeeds.
\<close>

theorem installer_killed_runner_still_started:
  "settle (ChildClose None (Some ''SIGTERM'')) = None \<and>
   fst (main projectEnv killedInstallRun) = None \<and>
   spawns (snd (snd (main projectEnv killedInstallRun))) =
     [\<lparr>command = ''npm'', args = [''install'', ''--no-save'', ''--no-package-lock'', ''left-pad''],
       spawnCwd = Some ''.'', spawnEnv = None, piped = True, stdinText = None\<rparr>,
      \<lparr>command = ''node'', args = [''main.js''], spawnCwd = None,
       spawnEnv = Some [(''NODE_PATH'', ''/app/node_modules'')], piped = True,
       stdinText = None\<rparr>]"
  by code_simp

end
